theory Spec2Isabelle
  imports Main "HOL-Library.Multiset"
begin

section \<open>Python strings and the primitives of the reconstruction module\<close>

text \<open>
  A Python \<open>str\<close> is a sequence of Unicode code points; it is modelled as a list of
  natural numbers (the code points), so that \<open>length\<close>, indexing and slicing count what
  Python counts. The named glyphs below are the ones the module
  \<open>pedurma_reconstruction/reconstruction.py\<close> writes in its literals.
\<close>

type_synonym ustring = "nat list"

abbreviation NL :: nat where "NL \<equiv> 10"          \<comment> \<open>line feed\<close>
abbreviation SPC :: nat where "SPC \<equiv> 32"        \<comment> \<open>space\<close>
abbreviation HASH :: nat where "HASH \<equiv> 35"      \<comment> \<open>\<open>#\<close>\<close>
abbreviation COMMA :: nat where "COMMA \<equiv> 44"    \<comment> \<open>\<open>,\<close>\<close>
abbreviation MINUS :: nat where "MINUS \<equiv> 45"    \<comment> \<open>\<open>-\<close>\<close>
abbreviation SEMI :: nat where "SEMI \<equiv> 59"      \<comment> \<open>\<open>;\<close>\<close>
abbreviation LT :: nat where "LT \<equiv> 60"          \<comment> \<open>\<open><\<close>\<close>
abbreviation GT :: nat where "GT \<equiv> 62"          \<comment> \<open>\<open>>\<close>\<close>
abbreviation TSEG :: nat where "TSEG \<equiv> 0xF0B"    \<comment> \<open>Tibetan syllable separator\<close>
abbreviation SHAD :: nat where "SHAD \<equiv> 0xF0D"    \<comment> \<open>Tibetan shad\<close>

text \<open>
  The exceptions that the modelled functions raise. \<open>PageNotFound\<close> is the condition that
  the specification names for a page number that cannot be found; the module defines no
  such exception.
\<close>

datatype error = IndexError | AttributeError | ValueError | UnboundLocalError | PageNotFound

text \<open>
  \<open>\d\<close> in a \<open>str\<close> pattern is any character of the Unicode category Nd. The category
  consists of runs of ten consecutive code points (digit values 0 to 9), listed here by
  their first code point, and of the fifty mathematical digits from U+1D7CE.
\<close>

definition nd_starts :: "nat list" where
  "nd_starts =
    [0x30, 0x660, 0x6F0, 0x7C0, 0x966, 0x9E6, 0xA66, 0xAE6, 0xB66, 0xBE6, 0xC66, 0xCE6,
     0xD66, 0xDE6, 0xE50, 0xED0, 0xF20, 0x1040, 0x1090, 0x17E0, 0x1810, 0x1946, 0x19D0,
     0x1A80, 0x1A90, 0x1B50, 0x1BB0, 0x1C40, 0x1C50, 0xA620, 0xA8D0, 0xA900, 0xA9D0,
     0xA9F0, 0xAA50, 0xABF0, 0xFF10, 0x104A0, 0x10D30, 0x11066, 0x110F0, 0x11136,
     0x111D0, 0x112F0, 0x11450, 0x114D0, 0x11650, 0x116C0, 0x11730, 0x118E0, 0x11950,
     0x11C50, 0x11D50, 0x11DA0, 0x16A60, 0x16AC0, 0x16B50, 0x1E140, 0x1E2F0, 0x1E950,
     0x1FBF0]"

definition is_digit :: "nat \<Rightarrow> bool" where
  "is_digit c =
    (list_ex (\<lambda>s. s \<le> c \<and> c < s + 10) nd_starts \<or> (0x1D7CE \<le> c \<and> c \<le> 0x1D7FF))"

text \<open>\<open>\s\<close> and \<open>str.isspace\<close>: the Unicode white space; \<open>\S\<close> is its complement.\<close>

definition is_space :: "nat \<Rightarrow> bool" where
  "is_space c =
    ((9 \<le> c \<and> c \<le> 13) \<or> (28 \<le> c \<and> c \<le> 32) \<or> c = 0x85 \<or> c = 0xA0 \<or> c = 0x1680
     \<or> (0x2000 \<le> c \<and> c \<le> 0x200A) \<or> c = 0x2028 \<or> c = 0x2029 \<or> c = 0x202F
     \<or> c = 0x205F \<or> c = 0x3000)"

definition is_tib_digit :: "nat \<Rightarrow> bool" where  \<comment> \<open>the class \<open>[U+0F20-U+0F29]\<close>\<close>
  "is_tib_digit c = (0xF20 \<le> c \<and> c \<le> 0xF29)"

definition is_circle_range :: "nat \<Rightarrow> bool" where  \<comment> \<open>the class \<open>[U+2460-U+24EA]\<close>\<close>
  "is_circle_range c = (0x2460 \<le> c \<and> c \<le> 0x24EA)"

text \<open>\<open>str(n)\<close> for a non-negative integer: its decimal digits.\<close>

function str_nat :: "nat \<Rightarrow> ustring" where
  "str_nat n = (if n < 10 then [48 + n] else str_nat (n div 10) @ [48 + n mod 10])"
  by pat_completeness auto
termination
  by (relation "measure id") auto

declare str_nat.simps [simp del]

section \<open>Numeral resolver\<close>

text \<open>
  \<open>is_circle_number\<close>: \<open>re.search\<close> for the first character of the circled range, then
  \<open>circle_num.get\<close>, which gives \<open>None\<close> for a character of the range that is not a key
  of the table. The result is \<open>Some v\<close> for a string \<open>v\<close> and \<open>None\<close> for Python's
  \<open>None\<close>. Every Tibetan digit is a key of the table \<open>tib_num\<close>.
\<close>

definition circle_num :: "(nat \<times> ustring) list" where  \<comment> \<open>the table: glyph and number\<close>
  "circle_num =
    [(0x24EA, [48]), (0x2460, [49]), (0x2461, [50]), (0x2462, [51]),
     (0x2463, [52]), (0x2464, [53]), (0x2465, [54]), (0x2466, [55]),
     (0x2467, [56]), (0x2468, [57]), (0x2469, [49, 48]), (0x246A, [49, 49]),
     (0x246B, [49, 50]), (0x246C, [49, 51]), (0x246D, [49, 52]), (0x246E, [49, 53]),
     (0x246F, [49, 54]), (0x2470, [49, 55]), (0x2471, [49, 56]), (0x2472, [49, 57]),
     (0x2473, [50, 48])]"

definition is_circle_number :: "ustring \<Rightarrow> ustring option" where
  "is_circle_number footnotes_marker =
    (case find is_circle_range footnotes_marker of
       None \<Rightarrow> Some []
     | Some g \<Rightarrow> map_of circle_num g)"

text \<open>
  The guard of \<open>translate_tib_number\<close> is \<open>re.search(r"\d+\S+(\d+)", marker)\<close>. A search
  succeeds when some position starts a match, whatever the order in which the
  alternatives are tried: \<open>n \<ge> 1\<close> digits, then \<open>m \<ge> 1\<close> characters that are not
  white space, then one more digit.
\<close>

definition digits_nonspace_digits_at :: "ustring \<Rightarrow> bool" where
  "digits_nonspace_digits_at s =
    list_ex (\<lambda>n. list_all is_digit (take n s) \<and>
       list_ex (\<lambda>m. list_all (\<lambda>c. \<not> is_space c) (take m (drop n s)) \<and>
                  (case drop (n + m) s of [] \<Rightarrow> False | d # _ \<Rightarrow> is_digit d))
         [1..<Suc (length s)])
      [1..<Suc (length s)]"

fun search_digits_nonspace_digits :: "ustring \<Rightarrow> bool" where
  "search_digits_nonspace_digits [] = False"
| "search_digits_nonspace_digits (c # cs) =
    (digits_nonspace_digits_at (c # cs) \<or> search_digits_nonspace_digits cs)"

definition tib_num :: "(nat \<times> ustring) list" where  \<comment> \<open>the table: glyph and digit\<close>
  "tib_num =
    [(0xF20, [48]), (0xF21, [49]), (0xF22, [50]), (0xF23, [51]), (0xF24, [52]),
     (0xF25, [53]), (0xF26, [54]), (0xF27, [55]), (0xF28, [56]), (0xF29, [57])]"

definition translate_tib_number :: "ustring \<Rightarrow> ustring" where
  "translate_tib_number footnotes_marker =
    (if search_digits_nonspace_digits footnotes_marker then []
     else concat (map (\<lambda>c. if is_tib_digit c
                           then (case map_of tib_num c of None \<Rightarrow> [] | Some v \<Rightarrow> v)
                           else [c])
                    (filter is_digit footnotes_marker)))"

definition get_value :: "ustring \<Rightarrow> ustring" where
  "get_value footnotes_marker =
    (case is_circle_number footnotes_marker of
       Some (c # cs) \<Rightarrow> c # cs
     | _ \<Rightarrow> (case translate_tib_number footnotes_marker of
               c # cs \<Rightarrow> c # cs
             | [] \<Rightarrow> []))"

text \<open>The rendered forms of the values: the glyph that stands for a number.\<close>

definition circled_glyph :: "nat \<Rightarrow> nat" where
  "circled_glyph k = (if k = 0 then 0x24EA else 0x245F + k)"

definition tibetan_glyph :: "nat \<Rightarrow> nat" where
  "tibetan_glyph d = 0xF20 + d"

section \<open>String methods\<close>

fun starts_with :: "ustring \<Rightarrow> ustring \<Rightarrow> bool" where
  \<comment> \<open>\<open>starts_with p s\<close> is \<open>s.startswith(p)\<close>\<close>
  "starts_with [] s = True"
| "starts_with (p # ps) [] = False"
| "starts_with (p # ps) (c # cs) = (p = c \<and> starts_with ps cs)"

fun find_sub :: "ustring \<Rightarrow> ustring \<Rightarrow> nat option" where
  \<comment> \<open>\<open>find_sub old s\<close> is \<open>s.find(old)\<close>, with \<open>None\<close> for -1\<close>
  "find_sub old [] = (if old = [] then Some 0 else None)"
| "find_sub old (c # cs) =
    (if starts_with old (c # cs) then Some 0 else map_option Suc (find_sub old cs))"

definition has_sub :: "ustring \<Rightarrow> ustring \<Rightarrow> bool" where
  \<comment> \<open>\<open>old in s\<close>, and \<open>re.search\<close> for a pattern that is a literal\<close>
  "has_sub old s = (find_sub old s \<noteq> None)"

definition replace_first :: "ustring \<Rightarrow> ustring \<Rightarrow> ustring \<Rightarrow> ustring" where
  \<comment> \<open>\<open>s.replace(old, new, 1)\<close>: only the first occurrence\<close>
  "replace_first old new s =
    (case find_sub old s of
       None \<Rightarrow> s
     | Some k \<Rightarrow> take k s @ new @ drop (k + length old) s)"

fun replace_all :: "ustring \<Rightarrow> ustring \<Rightarrow> ustring \<Rightarrow> ustring" where
  \<comment> \<open>\<open>s.replace(old, new)\<close>, and \<open>re.sub\<close> of a literal: the occurrences from the left,
      not overlapping\<close>
  "replace_all old new [] = (if old = [] then new else [])"
| "replace_all old new (c # cs) =
    (if old = [] then new @ c # replace_all old new cs
     else if starts_with old (c # cs)
       then new @ replace_all old new (drop (length old - 1) cs)
     else c # replace_all old new cs)"

fun split_char :: "nat \<Rightarrow> ustring \<Rightarrow> ustring list" where
  \<comment> \<open>\<open>s.split(d)\<close> for a separator of one character\<close>
  "split_char d [] = [[]]"
| "split_char d (c # cs) =
    (if c = d then [] # split_char d cs
     else (case split_char d cs of [] \<Rightarrow> [[c]] | x # xs \<Rightarrow> (c # x) # xs))"

definition is_linebreak :: "nat \<Rightarrow> bool" where
  "is_linebreak c =
    ((10 \<le> c \<and> c \<le> 13) \<or> (28 \<le> c \<and> c \<le> 30) \<or> c = 0x85 \<or> c = 0x2028 \<or> c = 0x2029)"

fun splitlines :: "ustring \<Rightarrow> ustring list" where
  \<comment> \<open>\<open>s.splitlines()\<close>: a carriage return and a line feed together end one line\<close>
  "splitlines [] = []"
| "splitlines [c] = (if is_linebreak c then [[]] else [[c]])"
| "splitlines (c # d # ds) =
    (if c = 13 \<and> d = 10 then [] # splitlines ds
     else if is_linebreak c then [] # splitlines (d # ds)
     else (case splitlines (d # ds) of [] \<Rightarrow> [[c]] | l # ls \<Rightarrow> (c # l) # ls))"

definition strip :: "ustring \<Rightarrow> ustring" where
  \<comment> \<open>\<open>s.strip()\<close>\<close>
  "strip s = rev (dropWhile is_space (rev (dropWhile is_space s)))"

section \<open>Regular expressions of the module\<close>

text \<open>
  Each pattern of the module is modelled by a function that tries to match it at the
  start of a string and returns the length of the match. \<open>re_search\<close>, \<open>re_scan\<close> and
  \<open>re_sub\<close> move such a function along the text as \<open>re.search\<close>, \<open>re.finditer\<close> /
  \<open>re.findall\<close> / \<open>re.split\<close> and \<open>re.sub\<close> do: the leftmost match first, and the next
  one after its end. None of the patterns matches the empty string.
\<close>

fun re_search :: "(ustring \<Rightarrow> 'a option) \<Rightarrow> ustring \<Rightarrow> 'a option" where
  "re_search m [] = m []"
| "re_search m (c # cs) = (case m (c # cs) of Some x \<Rightarrow> Some x | None \<Rightarrow> re_search m cs)"

fun re_scan :: "(ustring \<Rightarrow> nat option) \<Rightarrow> ustring \<Rightarrow> (ustring \<times> ustring) list \<times> ustring" where
  \<comment> \<open>the text before each match with the match, and the text after the last match\<close>
  "re_scan m [] = ([], [])"
| "re_scan m (c # cs) =
    (case m (c # cs) of
       Some (Suc n) \<Rightarrow>
         (case re_scan m (drop n cs) of (ps, t) \<Rightarrow> (([], c # take n cs) # ps, t))
     | _ \<Rightarrow>
         (case re_scan m cs of
            ([], t) \<Rightarrow> ([], c # t)
          | ((pre, mt) # ps, t) \<Rightarrow> ((c # pre, mt) # ps, t)))"

definition re_finditer :: "(ustring \<Rightarrow> nat option) \<Rightarrow> ustring \<Rightarrow> ustring list" where
  \<comment> \<open>the matched texts, \<open>marker[0]\<close> of each match; also \<open>re.findall\<close> without groups\<close>
  "re_finditer m s = map snd (fst (re_scan m s))"

definition re_split :: "(ustring \<Rightarrow> nat option) \<Rightarrow> ustring \<Rightarrow> ustring list" where
  \<comment> \<open>\<open>re.split\<close> for a pattern without groups\<close>
  "re_split m s = (case re_scan m s of (ps, t) \<Rightarrow> map fst ps @ [t])"

fun lazy_close :: "(nat \<Rightarrow> bool) \<Rightarrow> ustring \<Rightarrow> nat option" where
  \<comment> \<open>\<open>X*?>\<close>: the lazy repetition stops at the first \<open>>\<close>; the length matched\<close>
  "lazy_close ok [] = None"
| "lazy_close ok (c # cs) =
    (if c = GT then Some 1
     else if ok c then map_option Suc (lazy_close ok cs)
     else None)"

definition match_tag :: "ustring \<Rightarrow> (nat \<Rightarrow> bool) \<Rightarrow> ustring \<Rightarrow> nat option" where
  \<comment> \<open>a literal prefix, then \<open>X+?>\<close>: the first character after the prefix belongs to the
      repetition even when it is \<open>>\<close>\<close>
  "match_tag pre ok s =
    (if starts_with pre s then
       (case drop (length pre) s of
          [] \<Rightarrow> None
        | c # cs \<Rightarrow>
            if ok c then map_option (\<lambda>n. length pre + 1 + n) (lazy_close ok cs) else None)
     else None)"

definition not_newline :: "nat \<Rightarrow> bool" where  \<comment> \<open>the pattern \<open>.\<close>\<close>
  "not_newline c = (c \<noteq> NL)"

definition not_space :: "nat \<Rightarrow> bool" where  \<comment> \<open>the pattern \<open>\S\<close>\<close>
  "not_space c = (\<not> is_space c)"

definition match_marker :: "ustring \<Rightarrow> nat option" where  \<comment> \<open>\<open><.+?>\<close>\<close>
  "match_marker = match_tag [LT] not_newline"

definition match_page_ann :: "ustring \<Rightarrow> nat option" where  \<comment> \<open>\<open><p\S+?>\<close>\<close>
  "match_page_ann = match_tag [LT, 112] not_space"

definition match_page_ref :: "ustring \<Rightarrow> nat option" where  \<comment> \<open>\<open><r.+?>\<close>\<close>
  "match_page_ref = match_tag [LT, 114] not_newline"

section \<open>Footnote diff classifier: the marker-noise stripper\<close>

text \<open>
  The patterns of \<open>rm_marker\<close> are of two kinds. A pattern for one character of a class
  (also under \<open>+\<close> or \<open>+?\<close>) is found when the text has a character of the class, and
  substituting the empty string for it deletes every character of the class. A literal
  of several characters is found as a substring and substituted from the left.
\<close>

datatype pattern = Cls "nat \<Rightarrow> bool" | Lit ustring

fun pat_search :: "pattern \<Rightarrow> ustring \<Rightarrow> bool" where
  "pat_search (Cls P) s = list_ex P s"
| "pat_search (Lit l) s = has_sub l s"

fun pat_remove :: "pattern \<Rightarrow> ustring \<Rightarrow> ustring" where
  "pat_remove (Cls P) s = filter (\<lambda>c. \<not> P c) s"
| "pat_remove (Lit l) s = replace_all l [] s"

definition is_ascii_letter :: "nat \<Rightarrow> bool" where  \<comment> \<open>\<open>[a-zA-Z]\<close>\<close>
  "is_ascii_letter c = ((97 \<le> c \<and> c \<le> 122) \<or> (65 \<le> c \<and> c \<le> 90))"

definition rm_marker_patterns :: "pattern list" where
  "rm_marker_patterns =
    [Cls (\<lambda>c. c = 0xA9), Cls (\<lambda>c. c = 0xAE), Cls (\<lambda>c. c = 0x201C), Cls (\<lambda>c. c = 0x2022),
     Cls is_tib_digit, Cls is_ascii_letter, Cls (\<lambda>c. c = 41), Cls (\<lambda>c. c = 40),
     Cls (\<lambda>c. c = SPC), Cls (\<lambda>c. c = 64), Cls (\<lambda>c. c = TSEG), Lit [SHAD, SPC, SHAD],
     Cls is_digit, Cls (\<lambda>c. c = SHAD), Lit [0xF04, 0xF05]]"

definition rm_step :: "ustring \<Rightarrow> ustring \<Rightarrow> pattern \<Rightarrow> ustring" where
  \<comment> \<open>the loop body: the pattern is looked for in the argument \<open>diff\<close> and removed
      from \<open>result\<close>\<close>
  "rm_step diff result p = (if pat_search p diff then pat_remove p result else result)"

definition rm_marker :: "ustring \<Rightarrow> ustring" where
  "rm_marker diff = foldl (rm_step diff) diff rm_marker_patterns"

section \<open>Footnote reassembler: line split and demultiply\<close>

fun re_sub :: "(ustring \<Rightarrow> (ustring \<times> nat) option) \<Rightarrow> ustring \<Rightarrow> ustring" where
  \<comment> \<open>\<open>re.sub\<close>: the function gives the replacement and the length of a match at the
      start of the string\<close>
  "re_sub m [] = []"
| "re_sub m (c # cs) =
    (case m (c # cs) of
       Some (repl, Suc n) \<Rightarrow> repl @ re_sub m (drop n cs)
     | _ \<Rightarrow> c # re_sub m cs)"

fun newline_before_lt :: "bool \<Rightarrow> ustring \<Rightarrow> ustring" where
  \<comment> \<open>\<open>re.sub("(<+)", r"\n\1", text)\<close>: a line feed before every maximal run of \<open><\<close>;
      the flag says that the previous character was a \<open><\<close>\<close>
  "newline_before_lt inrun [] = []"
| "newline_before_lt inrun (c # cs) =
    (if c = LT then (if inrun then [LT] else [NL, LT]) @ newline_before_lt True cs
     else c # newline_before_lt False cs)"

definition match_nl_lt_digits_comma :: "ustring \<Rightarrow> (ustring \<times> ustring) option" where
  \<comment> \<open>the group \<open>(\n<\d+,)\<close>: the group and the rest; the digits are the whole run, for a
      digit is not a comma\<close>
  "match_nl_lt_digits_comma s =
    (case s of
       a # b # r \<Rightarrow>
         if a = NL \<and> b = LT then
           (case dropWhile is_digit r of
              [] \<Rightarrow> None
            | c # r' \<Rightarrow>
                if takeWhile is_digit r \<noteq> [] \<and> c = COMMA
                then Some (NL # LT # takeWhile is_digit r @ [COMMA], r') else None)
         else None
     | _ \<Rightarrow> None)"

definition match_nl_lt_m :: "ustring \<Rightarrow> (ustring \<times> ustring) option" where
  \<comment> \<open>the group \<open>(\n<m)\<close>\<close>
  "match_nl_lt_m s =
    (if starts_with [NL, LT, 109] s then Some ([NL, LT, 109], drop 3 s) else None)"

definition demultiply_match ::
  "(ustring \<Rightarrow> (ustring \<times> ustring) option) \<Rightarrow> (nat \<Rightarrow> bool) \<Rightarrow> nat \<Rightarrow> ustring
    \<Rightarrow> (ustring \<times> nat) option" where
  \<comment> \<open>the first group, \<open>k\<close> groups of one glyph of the class, and the group \<open>(>.+)\<close>,
      which runs to the end of the line; the replacement repeats the first and the last
      group around each glyph\<close>
  "demultiply_match pre cls k s =
    (case pre s of
       None \<Rightarrow> None
     | Some (g1, r) \<Rightarrow>
         if length (take k r) = k \<and> list_all cls (take k r) then
           (case drop k r of
              [] \<Rightarrow> None
            | c # r' \<Rightarrow>
                if c = GT \<and> takeWhile not_newline r' \<noteq> [] then
                  Some (concat (map (\<lambda>g. g1 @ [g] @ GT # takeWhile not_newline r') (take k r)),
                        length g1 + k + 1 + length (takeWhile not_newline r'))
                else None)
         else None)"

definition is_circle_1_9 :: "nat \<Rightarrow> bool" where  \<comment> \<open>the class \<open>[U+2460-U+2468]\<close>\<close>
  "is_circle_1_9 c = (0x2460 \<le> c \<and> c \<le> 0x2468)"

definition demultiply_patterns :: "(ustring \<Rightarrow> (ustring \<times> nat) option) list" where
  "demultiply_patterns =
    [demultiply_match match_nl_lt_digits_comma is_circle_range 5,
     demultiply_match match_nl_lt_m is_circle_1_9 2,
     demultiply_match match_nl_lt_digits_comma is_circle_range 4,
     demultiply_match match_nl_lt_digits_comma is_circle_range 3,
     demultiply_match match_nl_lt_digits_comma is_circle_range 2]"

definition demultiply_diffs :: "ustring \<Rightarrow> ustring" where
  "demultiply_diffs text = foldl (\<lambda>t p. re_sub p t) text demultiply_patterns"

definition reformat_footnotes :: "ustring \<Rightarrow> ustring" where
  "reformat_footnotes text =
    demultiply_diffs (newline_before_lt False (replace_all [NL] [] text))"

text \<open>The composite tag with three glyphs, followed by its note, and its three lines.\<close>

definition composite_123_note :: ustring where
  "composite_123_note = [LT, 49, 50, COMMA, 0x2460, 0x2461, 0x2462, GT, 110, 111, 116, 101]"

definition single_note :: "nat \<Rightarrow> ustring" where
  "single_note g = [LT, 49, 50, COMMA, g, GT, 110, 111, 116, 101]"

section \<open>Integers and page tokens\<close>

definition str_int :: "int \<Rightarrow> ustring" where  \<comment> \<open>\<open>str(v)\<close>, as an f-string writes a number\<close>
  "str_int v = (if v < 0 then MINUS # str_nat (nat (- v)) else str_nat (nat v))"

definition digit_value :: "nat \<Rightarrow> nat" where
  "digit_value c =
    (if 0x1D7CE \<le> c \<and> c \<le> 0x1D7FF then (c - 0x1D7CE) mod 10
     else (case find (\<lambda>s. s \<le> c \<and> c < s + 10) nd_starts of
             None \<Rightarrow> 0
           | Some s \<Rightarrow> c - s))"

fun digit_groups_ok :: "bool \<Rightarrow> ustring \<Rightarrow> bool" where
  \<comment> \<open>digits, with single underscores between digits only; the flag says that the
      previous character was a digit\<close>
  "digit_groups_ok prev [] = prev"
| "digit_groups_ok prev (c # cs) =
    (if is_digit c then digit_groups_ok True cs
     else c = 95 \<and> prev \<and> (case cs of [] \<Rightarrow> False | d # _ \<Rightarrow> is_digit d)
          \<and> digit_groups_ok False cs)"

definition int_max_str_digits :: nat where
  \<comment> \<open>the default of \<open>sys.get_int_max_str_digits()\<close>: the limit on the number of digits of
      a decimal string that \<open>int\<close> converts\<close>
  "int_max_str_digits = 4300"

definition py_int :: "ustring \<Rightarrow> error + int" where
  \<comment> \<open>\<open>int(s)\<close>: white space around, a sign, decimal digits of any script; a string that
      is not a number and a number with more digits than the limit raise ValueError\<close>
  "py_int s =
    (let t = strip s;
         neg = (take 1 t = [MINUS]);
         u = (if take 1 t = [MINUS] \<or> take 1 t = [43] then drop 1 t else t);
         n = int (foldl (\<lambda>a c. 10 * a + digit_value c) 0 (filter (\<lambda>c. c \<noteq> 95) u))
     in if \<not> digit_groups_ok False u then Inl ValueError
        else if length (filter is_digit u) > int_max_str_digits then Inl ValueError
        else Inr (if neg then - n else n))"

definition match_page_token :: "int \<Rightarrow> ustring \<Rightarrow> ustring option" where
  \<comment> \<open>\<open><p{vol}-(\d+)>\<close> at the start of the string: the group\<close>
  "match_page_token vol s =
    (if starts_with ([LT, 112] @ str_int vol @ [MINUS]) s then
       (let r = drop (length ([LT, 112] @ str_int vol @ [MINUS])) s in
        if takeWhile is_digit r \<noteq> [] \<and> take 1 (dropWhile is_digit r) = [GT]
        then Some (takeWhile is_digit r) else None)
     else None)"

definition get_page_num :: "ustring \<Rightarrow> int \<Rightarrow> error + int" where
  \<comment> \<open>\<open>pg_pat.group(1)\<close> on \<open>None\<close> raises AttributeError\<close>
  "get_page_num body_text vol_num =
    (case re_search (match_page_token vol_num) body_text of
       None \<Rightarrow> Inl AttributeError
     | Some pg \<Rightarrow> py_int pg)"

fun lazy_nonspace_digits :: "ustring \<Rightarrow> ustring option" where
  \<comment> \<open>\<open>\S*?(\d+)\<close>: the lazy repetition stops at the first digit; the group is the run of
      digits from there\<close>
  "lazy_nonspace_digits [] = None"
| "lazy_nonspace_digits (c # cs) =
    (if is_digit c then Some (takeWhile is_digit (c # cs))
     else if not_space c then lazy_nonspace_digits cs
     else None)"

definition match_pg_no :: "int \<Rightarrow> ustring \<Rightarrow> ustring option" where
  \<comment> \<open>\<open>{vol_num}\S*?(\d+)\<close> at the start of the string: the group\<close>
  "match_pg_no vol s =
    (if starts_with (str_int vol) s then lazy_nonspace_digits (drop (length (str_int vol)) s)
     else None)"

definition get_pg_ann :: "ustring \<Rightarrow> int \<Rightarrow> error + ustring" where
  "get_pg_ann diff vol_num =
    (case re_search (match_pg_no vol_num) diff of
       None \<Rightarrow> Inl AttributeError
     | Some pg_num \<Rightarrow> Inr ([LT, 112] @ str_int vol_num @ [MINUS] @ pg_num @ [GT]))"

section \<open>Renumbering of the markers of a page\<close>

text \<open>
  The loop shared by \<open>reformatting_body\<close> and \<open>postprocess_footnotes\<close>: the markers are
  found in the page as it was, and each is replaced at its first occurrence in the page
  as it is by then.
\<close>

fun renumber_loop :: "nat \<Rightarrow> ustring list \<Rightarrow> ustring \<Rightarrow> ustring" where
  "renumber_loop i [] page = page"
| "renumber_loop i (marker # markers) page =
    renumber_loop (Suc i) markers
      (replace_first marker ([LT] @ str_nat i @ [COMMA] @ butlast (tl marker) @ [GT]) page)"

definition renumber_markers :: "ustring \<Rightarrow> ustring" where
  "renumber_markers page = renumber_loop 1 (re_finditer match_marker page) page"

fun zip_longest :: "ustring list \<Rightarrow> ustring list \<Rightarrow> (ustring \<times> ustring) list" where
  \<comment> \<open>\<open>zip_longest(xs, ys, fillvalue="")\<close>\<close>
  "zip_longest [] [] = []"
| "zip_longest (x # xs) [] = (x, []) # zip_longest xs []"
| "zip_longest [] (y # ys) = ([], y) # zip_longest [] ys"
| "zip_longest (x # xs) (y # ys) = (x, y) # zip_longest xs ys"

definition reformatting_body :: "ustring \<Rightarrow> ustring" where
  "reformatting_body text =
    concat (map (\<lambda>(page, ann). renumber_markers page @ ann)
      (zip_longest (re_split match_page_ann text) (re_finditer match_page_ann text)))"

section \<open>Footnote reassembler: grouping by page\<close>

definition translate_page_ref :: "ustring \<Rightarrow> ustring" where
  \<comment> \<open>\<open>first_ref.translate(table)\<close>: the three characters of \<open><r>\<close> deleted, the Tibetan
      digits replaced by the ASCII digits\<close>
  "translate_page_ref s =
    concat (map (\<lambda>c. if c = LT \<or> c = 114 \<or> c = GT then []
                     else if is_tib_digit c then [48 + (c - 0xF20)] else [c]) s)"

fun close_then_char :: "ustring \<Rightarrow> bool" where
  \<comment> \<open>the rest of \<open><.+?>(.+?)\<close> after the first character of the repetition: more of the
      repetition, then \<open>>\<close> and one more character of the line\<close>
  "close_then_char [] = False"
| "close_then_char (c # cs) =
    ((c = GT \<and> (case cs of [] \<Rightarrow> False | d # _ \<Rightarrow> d \<noteq> NL)) \<or> (c \<noteq> NL \<and> close_then_char cs))"

fun search_marker_with_text :: "ustring \<Rightarrow> bool" where
  \<comment> \<open>\<open>re.search("<.+?>(.+?)", marker)\<close>\<close>
  "search_marker_with_text [] = False"
| "search_marker_with_text (c # cs) =
    ((c = LT \<and> (case cs of [] \<Rightarrow> False | d # ds \<Rightarrow> d \<noteq> NL \<and> close_then_char ds))
     \<or> search_marker_with_text cs)"

definition keep_footnote :: "ustring \<Rightarrow> bool" where
  "keep_footnote marker =
    (marker \<noteq> [] \<and> (search_marker_with_text marker \<or> LT \<notin> set marker))"

definition footnotes_of_page :: "ustring \<Rightarrow> ustring list" where
  "footnotes_of_page page =
    filter keep_footnote (map strip (splitlines (renumber_markers page)))"

fun fill_table ::
  "int \<Rightarrow> (ustring \<times> ustring) list \<Rightarrow> (int \<rightharpoonup> ustring list) \<Rightarrow> (int \<rightharpoonup> ustring list)" where
  "fill_table walker [] footnote_result = footnote_result"
| "fill_table walker ((page, page_ref) # rest) footnote_result =
    fill_table (walker + 1) rest (footnote_result(walker \<mapsto> footnotes_of_page page))"

definition postprocess_footnotes :: "ustring \<Rightarrow> int \<Rightarrow> error + (int \<rightharpoonup> ustring list)" where
  \<comment> \<open>\<open>page_refs[0]\<close> raises IndexError on the empty list, \<open>int\<close> raises ValueError\<close>
  "postprocess_footnotes footnotes vol_num =
    (let page_refs = re_finditer match_page_ref footnotes;
         pages = drop 1 (re_split match_page_ref footnotes)
     in case page_refs of
          [] \<Rightarrow> Inl IndexError
        | first_ref # _ \<Rightarrow>
            (case py_int (translate_page_ref first_ref) of
               Inl e \<Rightarrow> Inl e
             | Inr start \<Rightarrow> Inr (fill_table start (zip_longest pages page_refs) Map.empty)))"

section \<open>Page merger\<close>

fun search_p_tag :: "ustring \<Rightarrow> bool" where
  \<comment> \<open>\<open>re.search("<p.+>", marker[0])\<close>: after \<open><p\<close>, a \<open>>\<close> with at least one character
      before it and no line feed up to it\<close>
  "search_p_tag [] = False"
| "search_p_tag (c # cs) =
    ((starts_with [LT, 112] (c # cs) \<and> GT \<in> set (tl (takeWhile not_newline (drop 1 cs))))
     \<or> search_p_tag cs)"

definition merge_repl :: "ustring \<Rightarrow> ustring \<Rightarrow> error + (ustring \<times> ustring)" where
  \<comment> \<open>the two replacements for one pair of a marker and a footnote; \<open>marker_parts[1]\<close>
      raises IndexError when the marker has no comma, the two \<open>try\<close> blocks default to
      the empty string\<close>
  "merge_repl marker foot_note =
    (if search_p_tag marker then Inr (marker, marker)
     else
       (case split_char COMMA (butlast (tl marker)) of
          body_incremental # body_value # _ \<Rightarrow>
            (let footnotes_parts = split_char GT foot_note;
                 first_parts = split_char COMMA (case footnotes_parts of [] \<Rightarrow> [] | x # _ \<Rightarrow> x);
                 footnotes_incremental = drop 1 (case first_parts of [] \<Rightarrow> [] | x # _ \<Rightarrow> x);
                 footnotes_value = (case first_parts of _ # v # _ \<Rightarrow> v | _ \<Rightarrow> []);
                 note = (case footnotes_parts of _ # n # _ \<Rightarrow> n | _ \<Rightarrow> [])
             in Inr ([LT] @ body_incremental @ [COMMA] @ body_value @ [SEMI]
                       @ footnotes_incremental @ [COMMA] @ footnotes_value @ [COMMA] @ note
                       @ [GT],
                     [LT] @ note @ [GT]))
        | _ \<Rightarrow> Inl IndexError))"

fun merge_loop ::
  "(ustring \<times> ustring) list \<Rightarrow> ustring \<times> ustring \<Rightarrow> error + (ustring \<times> ustring)" where
  "merge_loop [] acc = Inr acc"
| "merge_loop ((marker, foot_note) # rest) (with_marker, without_marker) =
    (case merge_repl marker foot_note of
       Inl e \<Rightarrow> Inl e
     | Inr (repl1, repl2) \<Rightarrow>
         merge_loop rest
           (replace_first marker repl1 with_marker, replace_first marker repl2 without_marker))"

definition merge_footnotes_per_page ::
  "ustring \<Rightarrow> ustring list \<Rightarrow> error + (ustring \<times> ustring)" where
  \<comment> \<open>\<open>zip\<close> stops at the shorter of the markers and the footnotes\<close>
  "merge_footnotes_per_page page foot_notes =
    merge_loop (zip (re_finditer match_marker page) foot_notes) (page, page)"

section \<open>Body diff classifier\<close>

text \<open>
  A diff of the diff engine is the list \<open>[op, text]\<close>, an entry of the classified
  sequence is the list \<open>[op, text, tag]\<close>. The lists \<open>result\<close> and \<open>diffs\<close> are mutated in
  place by the repairs; the model passes both and returns both. The entries of \<open>result\<close>
  are lists of their own, none is shared with \<open>diffs\<close>.
\<close>

type_synonym diff = "int \<times> ustring"
type_synonym entry = "int \<times> ustring \<times> string"

definition entry_text :: "entry \<Rightarrow> ustring" where
  "entry_text e = fst (snd e)"

definition entry_tag :: "entry \<Rightarrow> string" where
  "entry_tag e = snd (snd e)"

definition first_run :: "(nat \<Rightarrow> bool) \<Rightarrow> ustring \<Rightarrow> ustring" where
  \<comment> \<open>the first match of a pattern \<open>[class]+\<close>, empty when there is none\<close>
  "first_run P s = takeWhile P (dropWhile (\<lambda>c. \<not> P c) s)"

definition rm_noise :: "ustring \<Rightarrow> ustring" where
  \<comment> \<open>the first match of each pattern in \<open>diff\<close> is replaced everywhere in \<open>result\<close>: a line
      feed, the first run of spaces, one tseg (the match of the lazy \<open>+?\<close>)\<close>
  "rm_noise diff =
    (let r1 = (if NL \<in> set diff then replace_all [NL] [] diff else diff);
         r2 = (if SPC \<in> set diff
               then replace_all (first_run (\<lambda>c. c = SPC) diff) [] r1 else r1)
     in if TSEG \<in> set diff then replace_all [TSEG] [] r2 else r2)"

definition is_punct :: "ustring \<Rightarrow> bool" where
  "is_punct char =
    (char \<in> set [[TSEG], [SHAD], [0xF14], [58], [SHAD, SPC, SHAD], [0xF04], [0xF05]])"

definition isvowel :: "ustring \<Rightarrow> bool" where
  "isvowel char = list_ex (\<lambda>v. v \<in> set char) [0xF74, 0xF72, 0xF7A, 0xF7C]"

definition is_midsyl :: "ustring \<Rightarrow> ustring \<Rightarrow> bool" where
  \<comment> \<open>on texts that are not empty, \<open>text[-1]\<close> is \<open>drop (length text - 1) text\<close> and
      \<open>text[0]\<close> is \<open>take 1 text\<close>\<close>
  "is_midsyl left_diff right_diff =
    (left_diff \<noteq> [] \<and>
     (let right_diff_text = replace_all [NL] [] right_diff;
          left_diff_text = replace_all [NL] [] left_diff
      in right_diff_text \<noteq> [] \<and> left_diff_text \<noteq> [] \<and>
         \<not> is_punct (drop (length left_diff_text - 1) left_diff_text) \<and>
         \<not> is_punct (take 1 right_diff_text)))"

fun double_mid_syl_marker_from :: "entry list \<Rightarrow> error + bool" where
  \<comment> \<open>the entries from the last one backwards; \<open>result[i]\<close> raises IndexError when the
      walk passes the first entry\<close>
  "double_mid_syl_marker_from [] = Inl IndexError"
| "double_mid_syl_marker_from (e # es) =
    (if is_punct (entry_text e) then Inr True
     else if entry_tag e = ''marker'' then Inr False
     else double_mid_syl_marker_from es)"

definition double_mid_syl_marker :: "entry list \<Rightarrow> error + bool" where
  "double_mid_syl_marker result = double_mid_syl_marker_from (rev result)"

definition set_last_text :: "entry list \<Rightarrow> ustring \<Rightarrow> entry list" where
  \<comment> \<open>\<open>result[-1][1] = v\<close>, on a list that is not empty\<close>
  "set_last_text result v =
    (case rev result of [] \<Rightarrow> [] | (op, _, tag) # r \<Rightarrow> rev r @ [(op, v, tag)])"

definition last_text :: "entry list \<Rightarrow> ustring" where
  \<comment> \<open>\<open>result[-1][1]\<close>, on a list that is not empty\<close>
  "last_text result = (case rev result of [] \<Rightarrow> [] | e # _ \<Rightarrow> entry_text e)"

definition set_diff_text :: "diff list \<Rightarrow> nat \<Rightarrow> ustring \<Rightarrow> diff list" where
  \<comment> \<open>\<open>diffs[k][1] = v\<close>, for \<open>k\<close> in range\<close>
  "set_diff_text diffs k v = diffs[k := (fst (diffs ! k), v)]"

definition handle_mid_syl ::
  "entry list \<Rightarrow> diff list \<Rightarrow> diff \<Rightarrow> nat \<Rightarrow> diff \<Rightarrow> ustring \<Rightarrow> string
    \<Rightarrow> error + (entry list \<times> diff list)" where
  \<comment> \<open>every index out of range raises IndexError: \<open>left_diff[1][-1]\<close> and
      \<open>right_diff_text[0]\<close> on an empty text, \<open>result[-1]\<close> on an empty list,
      \<open>diffs[i + 1]\<close> after the last diff; \<open>0 or 1\<close> is 1\<close>
  "handle_mid_syl result diffs left_diff i diff right_diff_text marker_type =
    (case double_mid_syl_marker result of
       Inl e \<Rightarrow> Inl e
     | Inr False \<Rightarrow> Inr (result, diffs)
     | Inr True \<Rightarrow>
        (let diff' = rm_noise (snd diff);  \<comment> \<open>the variable \<open>diff_\<close> of the source\<close>
             left_text = snd left_diff;
             first_syl = takeWhile (\<lambda>c. c \<noteq> TSEG \<and> c \<noteq> SHAD) right_diff_text;
             lastsyl = last (split_char TSEG left_text)
         in
         if left_text = [] then Inl IndexError
         else if last left_text = SPC then
           (if result = [] \<or> \<not> Suc i < length diffs then Inl IndexError
            else Inr (set_last_text result (take (length (last_text result) - 2) (last_text result))
                        @ [(1, diff', marker_type)],
                      set_diff_text diffs (Suc i)
                        (drop (length left_text - 2) left_text @ snd (diffs ! Suc i))))
         else if right_diff_text = [] then Inl IndexError
         else if take 1 right_diff_text = [SPC] then
           Inr (result @ [(1, diff', marker_type)], diffs)
         else if isvowel [last left_text] then
           (if result = [] \<or> \<not> Suc i < length diffs then Inl IndexError
            else Inr (set_last_text result (last_text result @ first_syl)
                        @ [(1, diff', marker_type)],
                      set_diff_text diffs (Suc i) (drop (length first_syl) (snd (diffs ! Suc i)))))
         else if isvowel (take 1 right_diff_text) then
           (if result = [] \<or> \<not> Suc i < length diffs then Inl IndexError
            else Inr (set_last_text result (last_text result @ first_syl)
                        @ [(1, diff', marker_type)],
                      set_diff_text diffs (Suc i) (drop (length first_syl) (snd (diffs ! Suc i)))))
         else if fst left_diff \<noteq> 1 then
           (if result = [] \<or> \<not> Suc i < length diffs then Inl IndexError
            else Inr (set_last_text result
                        (if lastsyl = [] then []
                         else take (length (last_text result) - length lastsyl) (last_text result))
                        @ [(1, diff', marker_type)],
                      set_diff_text diffs (Suc i) (lastsyl @ snd (diffs ! Suc i))))
         else Inr (result, diffs)))"

definition tseg_shifter ::
  "entry list \<Rightarrow> diff list \<Rightarrow> ustring \<Rightarrow> nat \<Rightarrow> ustring \<Rightarrow> error + (entry list \<times> diff list)" where
  \<comment> \<open>\<open>is_punct\<close> is given the whole left text\<close>
  "tseg_shifter result diffs left_diff_text i right_diff_text =
    (if right_diff_text = [] then Inl IndexError
     else if take 1 right_diff_text = [TSEG] \<and> \<not> is_punct left_diff_text then
       (if result = [] \<or> \<not> Suc i < length diffs then Inl IndexError
        else Inr (set_last_text result (last_text result @ [TSEG]),
                  set_diff_text diffs (Suc i) (drop 1 (snd (diffs ! Suc i)))))
     else Inr (result, diffs))"

definition is_ascii_digit :: "nat \<Rightarrow> bool" where  \<comment> \<open>the class \<open>[0-9]\<close>\<close>
  "is_ascii_digit c = (48 \<le> c \<and> c \<le> 57)"

definition get_abs_marker :: "ustring \<Rightarrow> ustring" where
  "get_abs_marker diff =
    first_run is_circle_range diff @ first_run is_tib_digit diff @ first_run is_ascii_digit diff"

definition match_m_tag_body :: "ustring \<Rightarrow> ustring option" where
  \<comment> \<open>the group of \<open><m(.+?)>\<close> for a match at the start of the string\<close>
  "match_m_tag_body r =
    map_option (\<lambda>n. take (n - 3) (drop 2 r)) (match_tag [LT, 109] not_newline r)"

definition get_excep_marker :: "ustring \<Rightarrow> ustring" where
  \<comment> \<open>the group of the last pattern that matches; \<open>(.*#.*)\<close> matches the first line with
      a \<open>#\<close>, from its start to its end\<close>
  "get_excep_marker diff =
    (case find (\<lambda>l. HASH \<in> set l) (split_char NL diff) of
       Some line \<Rightarrow> line
     | None \<Rightarrow> (case re_search match_m_tag_body diff of Some body \<Rightarrow> body | None \<Rightarrow> []))"

definition get_marker :: "ustring \<Rightarrow> ustring" where
  "get_marker diff =
    (if get_abs_marker diff \<noteq> [] then get_abs_marker diff
     else if get_excep_marker diff \<noteq> [] then get_excep_marker diff
     else [])"

definition digit_ahead :: "ustring \<Rightarrow> bool" where
  \<comment> \<open>\<open>tseg?\d+\<close> at the start of the string\<close>
  "digit_ahead r =
    (list_ex is_digit (take 1 r) \<or> (take 1 r = [TSEG] \<and> list_ex is_digit (take 1 (drop 1 r))))"

definition nondigit_ahead :: "ustring \<Rightarrow> bool" where
  \<comment> \<open>\<open>tseg?\D tseg?\d+\<close> at the start of the string\<close>
  "nondigit_ahead r =
    ((list_ex (\<lambda>c. \<not> is_digit c) (take 1 r) \<and> digit_ahead (drop 1 r)) \<or>
     (take 1 r = [TSEG] \<and> list_ex (\<lambda>c. \<not> is_digit c) (take 1 (drop 1 r))
        \<and> digit_ahead (drop 2 r)))"

fun search_page_no :: "ustring \<Rightarrow> ustring \<Rightarrow> bool" where
  \<comment> \<open>\<open>re.search\<close> for the volume number followed by \<open>tseg?\D tseg?\d+\<close>\<close>
  "search_page_no vol [] = False"
| "search_page_no vol (c # cs) =
    ((starts_with vol (c # cs) \<and> nondigit_ahead (drop (length vol) (c # cs)))
     \<or> search_page_no vol cs)"

definition double_marker_handler :: "entry list \<Rightarrow> entry list" where
  "double_marker_handler result =
    (if length result > 3 then
       (case rev result of
          cur # prev1 # prev2 # _ \<Rightarrow>
            if entry_tag cur = ''marker'' \<and> entry_tag prev2 = ''marker''
               \<and> entry_text prev1 \<in> set [[NL], [SPC], [], [SHAD]]
            then butlast result else result
        | _ \<Rightarrow> result)
     else result)"

text \<open>
  What \<open>filter_diffs\<close> does with a diff that is only in the source and is not a page
  number: one of the four courses that its branches take. \<open>Continue\<close> is the \<open>continue\<close>
  statement, which also skips \<open>double_marker_handler\<close>.
\<close>

datatype action = MidSyl | ShiftAppend | Continue | Nothing

definition choose_action ::
  "int \<Rightarrow> ustring \<Rightarrow> int \<Rightarrow> ustring \<Rightarrow> ustring \<Rightarrow> ustring \<Rightarrow> action" where
  "choose_action left_diff_type left_diff_text right_diff_type right_diff_text diff_text diff' =
    (if left_diff_type = 0 \<and> right_diff_type = 0 then
       (if is_midsyl left_diff_text right_diff_text \<and> get_marker diff_text \<noteq> [] then MidSyl
        else if get_marker diff_text \<noteq> [] then ShiftAppend
        else if diff' \<noteq> [] then
          (if (0xF44 \<in> set (drop (length left_diff_text - 3) left_diff_text)
                 \<and> diff' = [0xF66, 0xF90, 0xF7A]) \<or> diff' = [0xF74]
           then Continue
           else if is_midsyl left_diff_text right_diff_text then MidSyl
           else ShiftAppend)
        else Nothing)
     else if right_diff_type = 1 then
       (if is_midsyl left_diff_text right_diff_text \<and> get_marker diff_text \<noteq> [] then MidSyl
        else if get_marker diff_text \<noteq> [] then ShiftAppend
        else if diff' \<noteq> [] \<and> right_diff_text \<in> set [[NL], [SPC], [TSEG]] then
          (if 0xF44 \<in> set (drop (length left_diff_text - 2) left_diff_text)
                \<and> diff' = [0xF66, 0xF90, 0xF7A]
           then Continue
           else if is_midsyl left_diff_text right_diff_text then MidSyl
           else ShiftAppend)
        else Nothing)
     else Nothing)"

text \<open>
  The body of the loop of \<open>filter_diffs\<close> for the index \<open>i\<close>. The variable \<open>left_diff\<close>
  is the start value \<open>[0, ""]\<close> for the first diff and the diff before the current one
  otherwise. The variable \<open>right_diff\<close> keeps the diff of an earlier round when the
  current diff is the last one, and is unbound when no round has assigned it; the state
  holds the index of the diff it refers to.
\<close>

definition filter_step ::
  "int \<Rightarrow> nat \<Rightarrow> entry list \<times> diff list \<times> nat option
    \<Rightarrow> error + (entry list \<times> diff list \<times> nat option)" where
  "filter_step vol_num i st =
    (case st of (result, diffs, right_ref) \<Rightarrow>
      (case diffs ! i of (diff_type, diff_text) \<Rightarrow>
        if diff_type = 0 \<or> diff_type = 1 then
          Inr (result @ [(diff_type, diff_text, [])], diffs, right_ref)
        else if diff_type = - 1 then
          (if search_page_no (str_int vol_num) diff_text then
             Inr (result @ [(1, diff_text, ''pedurma-page'')], diffs, right_ref)
           else
             (let left_diff = (if i > 0 then diffs ! (i - 1) else (0, []));
                  right_ref' = (if i + 1 < length diffs then Some (i + 1) else right_ref)
              in case right_ref' of
                   None \<Rightarrow> Inl UnboundLocalError
                 | Some j \<Rightarrow>
                    (case choose_action (fst left_diff) (snd left_diff) (fst (diffs ! j))
                            (snd (diffs ! j)) diff_text (rm_noise diff_text) of
                       Continue \<Rightarrow> Inr (result, diffs, right_ref')
                     | Nothing \<Rightarrow> Inr (double_marker_handler result, diffs, right_ref')
                     | MidSyl \<Rightarrow>
                        (case handle_mid_syl result diffs left_diff i (diff_type, diff_text)
                                (snd (diffs ! j)) ''marker'' of
                           Inl e \<Rightarrow> Inl e
                         | Inr (result', diffs') \<Rightarrow>
                             Inr (double_marker_handler result', diffs', right_ref'))
                     | ShiftAppend \<Rightarrow>
                        (case tseg_shifter result diffs (snd left_diff) i (snd (diffs ! j)) of
                           Inl e \<Rightarrow> Inl e
                         | Inr (result', diffs') \<Rightarrow>
                             Inr (double_marker_handler
                                    (result' @ [(1, rm_noise diff_text, ''marker'')]),
                                  diffs', right_ref')))))
        else Inr (result, diffs, right_ref)))"

fun filter_loop ::
  "int \<Rightarrow> nat list \<Rightarrow> entry list \<times> diff list \<times> nat option
    \<Rightarrow> error + (entry list \<times> diff list \<times> nat option)" where
  "filter_loop vol_num [] st = Inr st"
| "filter_loop vol_num (i # rest) st =
    (case filter_step vol_num i st of Inl e \<Rightarrow> Inl e | Inr st' \<Rightarrow> filter_loop vol_num rest st')"

definition filter_diffs :: "diff list \<Rightarrow> int \<Rightarrow> error + entry list" where
  "filter_diffs diffs_list vol_num =
    (case filter_loop vol_num [0..<length diffs_list] ([], diffs_list, None) of
       Inl e \<Rightarrow> Inl e
     | Inr (result, _, _) \<Rightarrow> Inr result)"

section \<open>Notions of the specification used in the statements\<close>

text \<open>
  A rendered page-boundary token of a volume in a text: \<open><p\<close>, the volume, a hyphen, a
  page number of at least one digit, and \<open>>\<close>.
\<close>

definition has_page_token :: "ustring \<Rightarrow> int \<Rightarrow> bool" where
  "has_page_token body vol \<longleftrightarrow>
    (\<exists>a ds b. body = a @ [LT, 112] @ str_int vol @ [MINUS] @ ds @ [GT] @ b
       \<and> ds \<noteq> [] \<and> list_all is_digit ds)"




text \<open>
  A page-reference token in a formatted footnote string, as the pattern \<open><r.+?>\<close> finds
  it: \<open><r\<close>, at least one character, none of them a line feed, and \<open>>\<close>.
\<close>

definition has_page_ref :: "ustring \<Rightarrow> bool" where
  "has_page_ref footnotes \<longleftrightarrow>
    (\<exists>a x b. footnotes = a @ [LT, 114] @ x @ [GT] @ b \<and> x \<noteq> [] \<and> NL \<notin> set x)"

text \<open>
  A page segment given by its parts: before each marker token its preceding text and the
  marker's body, and the text after the last token. \<open>render_page\<close> writes the segment
  out, \<open>number_from\<close> puts the running number and a comma in front of each body. A part
  is plain when \<open><\<close> occurs only as the opening bracket of a token and the body is a
  non-empty text without \<open>>\<close> and line feed. \<open>no_clash\<close> says that no body is the numbered
  form of the body of an earlier token of the segment.
\<close>

fun render_page :: "(ustring \<times> ustring) list \<Rightarrow> ustring \<Rightarrow> ustring" where
  "render_page [] tail = tail"
| "render_page ((t, b) # segs) tail = t @ [LT] @ b @ [GT] @ render_page segs tail"

fun number_from :: "nat \<Rightarrow> (ustring \<times> ustring) list \<Rightarrow> (ustring \<times> ustring) list" where
  "number_from i [] = []"
| "number_from i ((t, b) # segs) = (t, str_nat i @ [COMMA] @ b) # number_from (Suc i) segs"

definition plain_seg :: "ustring \<times> ustring \<Rightarrow> bool" where
  "plain_seg = (\<lambda>(t, b). LT \<notin> set t \<and> b \<noteq> [] \<and> LT \<notin> set b \<and> GT \<notin> set b \<and> NL \<notin> set b)"

fun no_clash :: "nat \<Rightarrow> (ustring \<times> ustring) list \<Rightarrow> bool" where
  "no_clash i [] = True"
| "no_clash i ((t, b) # segs) =
    (list_all (\<lambda>(t', b'). b' \<noteq> str_nat i @ [COMMA] @ b) segs \<and> no_clash (Suc i) segs)"

definition marker_token :: "ustring \<times> ustring \<Rightarrow> ustring" where
  "marker_token = (\<lambda>(t, b). [LT] @ b @ [GT])"

text \<open>The characters of a classified sequence and of a list of diffs, as multisets.\<close>

definition text_chars :: "entry list \<Rightarrow> nat multiset" where
  "text_chars result = sum_list (map (\<lambda>e. mset (entry_text e)) result)"

definition diff_chars :: "diff list \<Rightarrow> nat multiset" where
  "diff_chars diffs = sum_list (map (\<lambda>d. mset (snd d)) diffs)"

text \<open>
  A body text given by its pages: each page but the last with the boundary token that
  follows it. A page is good when its parts are plain, no marker body begins with the
  letter \<open>p\<close> (the token would be a page boundary), and no body is the numbered form of
  an earlier one. \<open>prepend_text\<close> puts a text without match in front of a scanned text.
\<close>

fun render_text ::
  "((ustring \<times> ustring) list \<times> ustring \<times> ustring) list \<Rightarrow> (ustring \<times> ustring) list \<times> ustring
    \<Rightarrow> ustring" where
  "render_text [] last_page = render_page (fst last_page) (snd last_page)"
| "render_text ((segs, tail, ann) # pages) last_page =
    render_page segs tail @ ann @ render_text pages last_page"

definition good_page :: "(ustring \<times> ustring) list \<Rightarrow> ustring \<Rightarrow> bool" where
  "good_page segs tail =
    (list_all plain_seg segs \<and> list_all (\<lambda>(t, b). take 1 b \<noteq> [112]) segs \<and> LT \<notin> set tail
     \<and> no_clash 1 segs)"

definition number_pages ::
  "((ustring \<times> ustring) list \<times> ustring \<times> ustring) list
    \<Rightarrow> ((ustring \<times> ustring) list \<times> ustring \<times> ustring) list" where
  "number_pages pages = map (\<lambda>(segs, tail, ann). (number_from 1 segs, tail, ann)) pages"

definition prepend_text ::
  "ustring \<Rightarrow> (ustring \<times> ustring) list \<times> ustring \<Rightarrow> (ustring \<times> ustring) list \<times> ustring" where
  "prepend_text P r =
    (case r of
       ([], u) \<Rightarrow> ([], P @ u)
     | ((pre, mt) # ps, u) \<Rightarrow> ((P @ pre, mt) # ps, u))"

text \<open>
  The outputs of the page merger on a page segment given by its parts. \<open>paired_bodies\<close>
  are the bodies of the two replacements that \<open>merge_footnotes_per_page\<close> computes for a
  marker body and the footnote paired with it; \<open>merged_segs\<close> pairs the tokens with the
  footnotes from the left, as far as both last, and leaves the tokens after the last
  footnote as they are. \<open>page_body\<close> says that the merger takes the token for a page
  token. The segment and the footnotes are \<open>mergeable\<close> when every paired token that is
  not a page token has a comma, its footnote has no \<open><\<close> after the first character, and
  neither of its replacements is a token paired later.
\<close>

definition paired_bodies :: "ustring \<Rightarrow> ustring \<Rightarrow> ustring \<times> ustring" where
  "paired_bodies b foot_note =
    (case merge_repl ([LT] @ b @ [GT]) foot_note of
       Inr (repl1, repl2) \<Rightarrow> (butlast (tl repl1), butlast (tl repl2))
     | Inl e \<Rightarrow> (b, b))"

fun merged_segs ::
  "bool \<Rightarrow> (ustring \<times> ustring) list \<Rightarrow> ustring list \<Rightarrow> (ustring \<times> ustring) list" where
  "merged_segs marked [] foot_notes = []"
| "merged_segs marked (s # segs) [] = s # segs"
| "merged_segs marked ((t, b) # segs) (foot_note # foot_notes) =
    (t, (if marked then fst else snd) (paired_bodies b foot_note))
      # merged_segs marked segs foot_notes"

definition page_body :: "ustring \<Rightarrow> bool" where
  "page_body b = search_p_tag (LT # b @ [GT])"

fun mergeable :: "(ustring \<times> ustring) list \<Rightarrow> ustring list \<Rightarrow> bool" where
  "mergeable ((t, b) # segs) (foot_note # foot_notes) =
    ((page_body b \<or>
      (COMMA \<in> set b \<and> LT \<notin> set (tl foot_note) \<and>
       list_all (\<lambda>(t', b'). b' \<noteq> fst (paired_bodies b foot_note)
                   \<and> b' \<noteq> snd (paired_bodies b foot_note))
         (take (length foot_notes) segs)))
     \<and> mergeable segs foot_notes)"
| "mergeable segs foot_notes = True"


text \<open>
  The diffs of an example that the engine does not return: a shad and the syllable \<open>ka\<close>,
  both equal; the text \<open>ab \<close> and the circled digit one, both only in the source; the
  syllable \<open>ga\<close>, only in the target. \<open>example_result\<close> is the classified sequence when the loop of \<open>filter_diffs\<close>
  reaches the circled digit.
\<close>

definition example_diffs :: "diff list" where
  "example_diffs =
    [(0, [SHAD]), (0, [0xF40]), (- 1, [97, 98, SPC]), (- 1, [0x2460]), (1, [0xF42])]"

definition example_result :: "entry list" where
  "example_result = [(0, [SHAD], []), (0, [0xF40], [])]"


section \<open>Properties of the numeral resolver\<close>


lemma is_digit_tib: "is_tib_digit c \<Longrightarrow> is_digit c"
  by (simp add: is_digit_def is_tib_digit_def nd_starts_def)

lemma guard_single: "\<not> search_digits_nonspace_digits [c]"
  by (simp add: digits_nonspace_digits_at_def)

lemma get_value_circled:
  assumes "k \<le> 20"
  shows "get_value [circled_glyph k] = str_nat k"
proof -
  from assms have "k = 0 \<or> k = 1 \<or> k = 2 \<or> k = 3 \<or> k = 4 \<or> k = 5 \<or> k = 6 \<or> k = 7 \<or> k = 8
      \<or> k = 9 \<or> k = 10 \<or> k = 11 \<or> k = 12 \<or> k = 13 \<or> k = 14 \<or> k = 15 \<or> k = 16 \<or> k = 17
      \<or> k = 18 \<or> k = 19 \<or> k = 20"
    by arith
  then show ?thesis
    by (elim disjE)
      (simp_all add: get_value_def is_circle_number_def is_circle_range_def circle_num_def
        circled_glyph_def str_nat.simps)
qed

lemma get_value_tibetan:
  assumes "d \<le> 9"
  shows "get_value [tibetan_glyph d] = str_nat d"
proof -
  from assms have "d = 0 \<or> d = 1 \<or> d = 2 \<or> d = 3 \<or> d = 4 \<or> d = 5 \<or> d = 6 \<or> d = 7 \<or> d = 8
      \<or> d = 9"
    by arith
  then show ?thesis
    by (elim disjE)
      (simp_all add: get_value_def is_circle_number_def is_circle_range_def tib_num_def
        tibetan_glyph_def str_nat.simps translate_tib_number_def
        digits_nonspace_digits_at_def is_tib_digit_def is_digit_def nd_starts_def)
qed

text \<open>
  C6. Resolving the rendered form of a value recovers the value: for every circled
  numeral 0 to 20, \<open>get_value\<close> of the glyph is the decimal string of the number
  (through \<open>is_circle_number\<close>), and for every single Tibetan digit 0 to 9,
  \<open>get_value\<close> of the glyph is the decimal string of the digit (through
  \<open>translate_tib_number\<close>).
\<close>

theorem numeral_resolution_roundtrip:
  "(k \<le> 20 \<longrightarrow> get_value [circled_glyph k] = str_nat k) \<and>
   (d \<le> 9 \<longrightarrow> get_value [tibetan_glyph d] = str_nat d)"
  using get_value_circled get_value_tibetan by blast

theorem numeral_resolution_roundtrip_witness:
  "(13::nat) \<le> 20 \<and> (7::nat) \<le> 9 \<and> get_value [0x246C] = [49, 51] \<and> get_value [0xF27] = [55]"
  using numeral_resolution_roundtrip [of 13 7]
  by (simp add: circled_glyph_def tibetan_glyph_def str_nat.simps)

section \<open>Properties of the string methods and of the marker-noise stripper\<close>

lemma starts_with_iff: "starts_with p s \<longleftrightarrow> (\<exists>r. s = p @ r)"
  by (induction p s rule: starts_with.induct) auto

lemma find_sub_Some:
  "find_sub old s = Some k \<Longrightarrow> \<exists>r. s = take k s @ old @ r"
proof (induction s arbitrary: k)
  case Nil
  then show ?case by (simp split: if_splits)
next
  case (Cons c cs)
  show ?case
  proof (cases "starts_with old (c # cs)")
    case True
    with Cons.prems have "k = 0" by simp
    with True show ?thesis by (simp add: starts_with_iff)
  next
    case False
    with Cons.prems obtain j where j: "find_sub old cs = Some j" "k = Suc j" by auto
    from Cons.IH [OF j(1)] obtain r where "cs = take j cs @ old @ r" by blast
    with j(2) show ?thesis by auto
  qed
qed

lemma has_sub_set: "has_sub old s \<Longrightarrow> set old \<subseteq> set s"
proof -
  assume "has_sub old s"
  then obtain k where "find_sub old s = Some k" by (auto simp: has_sub_def)
  from find_sub_Some [OF this] obtain r where "s = take k s @ old @ r" by blast
  then have "set s = set (take k s) \<union> set old \<union> set r" by (metis set_append sup_assoc)
  then show ?thesis by blast
qed

lemma set_replace_all_Nil: "set (replace_all old [] s) \<subseteq> set s"
proof (induction old "[]::nat list" s rule: replace_all.induct)
  case (1 old)
  then show ?case by simp
next
  case (2 old c cs)
  then show ?case
    by (auto dest: in_set_dropD)
qed

lemma set_pat_remove: "set (pat_remove p s) \<subseteq> set s"
  using set_replace_all_Nil by (cases p) auto

lemma set_rm_fold: "set (foldl (rm_step diff) s ps) \<subseteq> set s"
proof (induction ps arbitrary: s)
  case Nil
  then show ?case by simp
next
  case (Cons p ps)
  have "set (foldl (rm_step diff) (rm_step diff s p) ps) \<subseteq> set (rm_step diff s p)"
    by (rule Cons.IH)
  also have "\<dots> \<subseteq> set s" using set_pat_remove [of p s] by (simp add: rm_step_def)
  finally show ?case by simp
qed

lemma rm_fold_no_class:
  assumes "Cls P \<in> set ps" "set s \<subseteq> set diff" "c \<in> set (foldl (rm_step diff) s ps)"
  shows "\<not> P c"
  using assms
proof (induction ps arbitrary: s)
  case Nil
  then show ?case by simp
next
  case (Cons p ps)
  let ?s' = "rm_step diff s p"
  have sub: "set ?s' \<subseteq> set diff"
    using set_pat_remove [of p s] Cons.prems(2) by (auto simp: rm_step_def)
  have mem: "c \<in> set (foldl (rm_step diff) ?s' ps)" using Cons.prems(3) by simp
  show ?case
  proof (cases "p = Cls P")
    case True
    from mem set_rm_fold have c: "c \<in> set ?s'" by blast
    show ?thesis
    proof (cases "list_ex P diff")
      case True
      with c \<open>p = Cls P\<close> show ?thesis by (simp add: rm_step_def)
    next
      case False
      with c Cons.prems(2) \<open>p = Cls P\<close> show ?thesis by (auto simp: list_ex_iff rm_step_def)
    qed
  next
    case False
    with Cons.prems(1) have "Cls P \<in> set ps" by simp
    from Cons.IH [OF this sub mem] show ?thesis .
  qed
qed

lemma rm_marker_no_class:
  "Cls P \<in> set rm_marker_patterns \<Longrightarrow> \<not> list_ex P (rm_marker t)"
  unfolding rm_marker_def list_ex_iff using rm_fold_no_class [of P rm_marker_patterns t t] by blast

lemma length_replace_all_Nil: "length (replace_all old [] s) \<le> length s"
proof (induction old "[]::nat list" s rule: replace_all.induct)
  case (1 old)
  then show ?case by simp
next
  case (2 old c cs)
  then show ?case by (auto intro: le_trans)
qed

lemma replace_all_shrinks:
  "has_sub old s \<Longrightarrow> old \<noteq> [] \<Longrightarrow> length (replace_all old [] s) < length s"
proof (induction s)
  case Nil
  then show ?case by (simp add: has_sub_def)
next
  case (Cons c cs)
  show ?case
  proof (cases "starts_with old (c # cs)")
    case True
    have "length (replace_all old [] (drop (length old - 1) cs)) \<le> length cs"
      using length_replace_all_Nil [of old "drop (length old - 1) cs"] by simp
    with True Cons.prems(2) show ?thesis by simp
  next
    case False
    with Cons.prems have "has_sub old cs" by (auto simp: has_sub_def)
    from Cons.IH [OF this Cons.prems(2)] False Cons.prems(2) show ?thesis by simp
  qed
qed

lemma rm_marker_second_pass:
  "rm_marker (rm_marker t) =
     (if has_sub [0xF04, 0xF05] (rm_marker t) then replace_all [0xF04, 0xF05] [] (rm_marker t)
      else rm_marker t)"
proof -
  let ?r = "rm_marker t"
  have cls: "\<And>P. Cls P \<in> set rm_marker_patterns \<Longrightarrow> \<not> list_ex P ?r"
    by (rule rm_marker_no_class)
  have "\<not> list_ex (\<lambda>c. c = SHAD) ?r" by (rule cls) (simp add: rm_marker_patterns_def)
  then have shad: "\<not> has_sub [SHAD, SPC, SHAD] ?r"
    using has_sub_set [of "[SHAD, SPC, SHAD]" ?r] by (auto simp: list_ex_iff)
  have c: "\<not> list_ex (\<lambda>c. c = 0xA9) ?r" "\<not> list_ex (\<lambda>c. c = 0xAE) ?r"
    "\<not> list_ex (\<lambda>c. c = 0x201C) ?r" "\<not> list_ex (\<lambda>c. c = 0x2022) ?r"
    "\<not> list_ex is_tib_digit ?r" "\<not> list_ex is_ascii_letter ?r"
    "\<not> list_ex (\<lambda>c. c = 41) ?r" "\<not> list_ex (\<lambda>c. c = 40) ?r"
    "\<not> list_ex (\<lambda>c. c = SPC) ?r" "\<not> list_ex (\<lambda>c. c = 64) ?r"
    "\<not> list_ex (\<lambda>c. c = TSEG) ?r" "\<not> list_ex is_digit ?r"
    "\<not> list_ex (\<lambda>c. c = SHAD) ?r"
    by (rule cls, simp add: rm_marker_patterns_def)+
  show ?thesis
    by (subst rm_marker_def) (simp add: rm_marker_patterns_def rm_step_def c shad)
qed

text \<open>
  C9. Applying \<open>rm_marker\<close> twice gives the same as applying it once exactly when the
  first result does not contain the pair of glyphs U+0F04 U+0F05: every other pattern
  finds nothing in a text that \<open>rm_marker\<close> has returned, but the pair can be
  brought together by the removal of what stood between its two glyphs, and the pattern
  for it was looked for in the original text only.
\<close>

theorem rm_marker_idempotent_iff:
  "rm_marker (rm_marker t) = rm_marker t \<longleftrightarrow> \<not> has_sub [0xF04, 0xF05] (rm_marker t)"
proof (cases "has_sub [0xF04, 0xF05] (rm_marker t)")
  case True
  then have "length (replace_all [0xF04, 0xF05] [] (rm_marker t)) < length (rm_marker t)"
    by (rule replace_all_shrinks) simp
  with True show ?thesis by (auto simp: rm_marker_second_pass)
next
  case False
  then show ?thesis by (simp add: rm_marker_second_pass)
qed

text \<open>
  On the text U+0F04, \<open>a\<close>, U+0F05 the first application removes the letter and
  leaves the pair; the second application removes the pair.
\<close>

theorem rm_marker_not_idempotent:
  "rm_marker (rm_marker [0xF04, 97, 0xF05]) \<noteq> rm_marker [0xF04, 97, 0xF05]"
  by (simp add: rm_marker_def rm_step_def rm_marker_patterns_def has_sub_def is_tib_digit_def
      is_ascii_letter_def is_digit_def nd_starts_def)

theorem rm_marker_idempotent_iff_witness:
  "rm_marker (rm_marker [0xF04, 0x20, 0xF40, 0xF0B]) = rm_marker [0xF04, 0x20, 0xF40, 0xF0B]
   \<and> rm_marker [0xF04, 0x20, 0xF40, 0xF0B] = [0xF04, 0xF40]"
proof -
  have r: "rm_marker [0xF04, 0x20, 0xF40, 0xF0B] = [0xF04, 0xF40]"
    by (simp add: rm_marker_def rm_step_def rm_marker_patterns_def has_sub_def is_tib_digit_def
      is_ascii_letter_def is_digit_def nd_starts_def)
  have "\<not> has_sub [0xF04, 0xF05] (rm_marker [0xF04, 0x20, 0xF40, 0xF0B])"
    unfolding r by (simp add: has_sub_def)
  with rm_marker_idempotent_iff [of "[0xF04, 0x20, 0xF40, 0xF0B]"] r show ?thesis by simp
qed


section \<open>Properties of the demultiply rewrite\<close>

lemma digit_facts:
  "is_digit 49" "is_digit 50" "\<not> is_digit COMMA" "\<not> is_digit 0x2460" "\<not> is_digit 0x2461"
  "\<not> is_digit LT" "\<not> is_digit NL"
  by (simp_all add: is_digit_def nd_starts_def)

text \<open>
  C8: the footnote reassembler reaches \<open>demultiply_diffs\<close> only through
  \<open>reformat_footnotes\<close>, whose substitution puts a line feed before every tag; the
  patterns of the rewrite start at that line feed. On the composite tag \<open><12,(1)(2)(3)>\<close>
  with its note (where (1), (2), (3) are the circled digits) the rewrite is applied to
  the tag after its line feed and produces the three single-marker lines in order, each
  with the shared prefix and suffix: the text that \<open>reformat_footnotes\<close> returns has
  these three lines, after the empty line before the first line feed.
\<close>

theorem demultiply_three_glyphs:
  "demultiply_diffs (NL # composite_123_note)
     = NL # single_note 0x2460 @ NL # single_note 0x2461 @ NL # single_note 0x2462 \<and>
   reformat_footnotes composite_123_note = demultiply_diffs (NL # composite_123_note) \<and>
   splitlines (reformat_footnotes composite_123_note)
     = [[], single_note 0x2460, single_note 0x2461, single_note 0x2462] \<and>
   filter (\<lambda>l. l \<noteq> []) (splitlines (reformat_footnotes composite_123_note))
     = [single_note 0x2460, single_note 0x2461, single_note 0x2462]"
  by (simp add: reformat_footnotes_def demultiply_diffs_def demultiply_patterns_def
      demultiply_match_def match_nl_lt_digits_comma_def match_nl_lt_m_def
      composite_123_note_def single_note_def digit_facts is_circle_range_def
      is_circle_1_9_def not_newline_def is_linebreak_def)

section \<open>Properties of the page-number extraction\<close>

lemma re_search_Some:
  "re_search m s = Some x \<Longrightarrow> \<exists>a r. s = a @ r \<and> m r = Some x"
proof (induction s)
  case Nil
  then show ?case by simp
next
  case (Cons c cs)
  show ?case
  proof (cases "m (c # cs)")
    case None
    with Cons.prems have "re_search m cs = Some x" by simp
    from Cons.IH [OF this] obtain a r where "cs = a @ r" "m r = Some x" by blast
    then have "c # cs = (c # a) @ r \<and> m r = Some x" by simp
    then show ?thesis by blast
  next
    case (Some y)
    with Cons.prems have "m (c # cs) = Some x" by simp
    then have "c # cs = [] @ (c # cs) \<and> m (c # cs) = Some x" by simp
    then show ?thesis by blast
  qed
qed

lemma re_search_append:
  "m r \<noteq> None \<Longrightarrow> re_search m (a @ r) \<noteq> None"
proof (induction a)
  case Nil
  then show ?case by (cases r) auto
next
  case (Cons c a)
  then show ?case by (cases "m (c # a @ r)") auto
qed

lemma match_page_token_Some:
  assumes "match_page_token vol r = Some ds"
  shows "\<exists>b. r = [LT, 112] @ str_int vol @ [MINUS] @ ds @ [GT] @ b \<and> ds \<noteq> []
    \<and> list_all is_digit ds"
proof -
  let ?pre = "[LT, 112] @ str_int vol @ [MINUS]"
  from assms have sw: "starts_with ?pre r"
    by (simp add: match_page_token_def split: if_splits)
  then obtain r' where r: "r = ?pre @ r'" by (auto simp: starts_with_iff)
  then have d: "drop (length ?pre) r = r'" by simp
  from assms sw d have ds: "ds = takeWhile is_digit r'" "ds \<noteq> []"
    and gt: "take 1 (dropWhile is_digit r') = [GT]"
    by (auto simp add: match_page_token_def Let_def simp del: append.simps split: if_splits)
  from gt obtain b where b: "dropWhile is_digit r' = GT # b"
    by (cases "dropWhile is_digit r'") auto
  have "r' = takeWhile is_digit r' @ dropWhile is_digit r'" by simp
  with b ds have "r' = ds @ [GT] @ b" by simp
  moreover have "list_all is_digit ds"
    unfolding ds(1) list_all_iff by (auto dest: set_takeWhileD)
  ultimately show ?thesis using r ds(2) by auto
qed

lemma GT_not_digit: "\<not> is_digit GT"
  by (simp add: is_digit_def nd_starts_def)

lemma match_page_token_complete:
  assumes "ds \<noteq> []" "list_all is_digit ds"
  shows "match_page_token vol ([LT, 112] @ str_int vol @ [MINUS] @ ds @ [GT] @ b) = Some ds"
proof -
  let ?pre = "[LT, 112] @ str_int vol @ [MINUS]"
  let ?r = "?pre @ (ds @ GT # b)"
  have sw: "starts_with ?pre ?r" unfolding starts_with_iff by blast
  have d: "drop (length ?pre) ?r = ds @ GT # b" by simp
  have tw: "takeWhile is_digit (ds @ GT # b) = ds"
    using assms(2) GT_not_digit by (simp add: takeWhile_append2 list_all_iff)
  have dw: "dropWhile is_digit (ds @ GT # b) = GT # b"
    using assms(2) GT_not_digit by (simp add: dropWhile_append2 list_all_iff)
  have "match_page_token vol ?r = Some ds"
    unfolding match_page_token_def Let_def using sw assms(1)
    by (simp only: d tw dw if_True) simp
  then show ?thesis by simp
qed

lemma digit_not_space: "is_digit c \<Longrightarrow> \<not> is_space c"
  by (auto simp add: is_digit_def is_space_def nd_starts_def)

lemma digit_not_sign: "is_digit c \<Longrightarrow> c \<noteq> MINUS \<and> c \<noteq> 43 \<and> c \<noteq> 95"
  by (auto simp add: is_digit_def nd_starts_def)

lemma digit_groups_ok_digits:
  "list_all is_digit ds \<Longrightarrow> digit_groups_ok p ds = (p \<or> ds \<noteq> [])"
  by (induction ds arbitrary: p) auto

lemma strip_digits:
  assumes "list_all is_digit ds"
  shows "strip ds = ds"
proof -
  have a: "dropWhile is_space ds = ds"
    using assms by (cases ds) (auto simp: digit_not_space)
  have "list_all is_digit (rev ds)" using assms by (simp add: list_all_iff)
  then have b: "dropWhile is_space (rev ds) = rev ds"
    by (cases "rev ds") (auto simp: digit_not_space)
  show ?thesis by (simp add: strip_def a b)
qed

lemma py_int_digits:
  assumes "list_all is_digit ds" "ds \<noteq> []"
  shows "py_int ds =
    (if length ds > int_max_str_digits then Inl ValueError
     else Inr (int (foldl (\<lambda>a c. 10 * a + digit_value c) 0 ds)))"
proof -
  obtain c cs where ds: "ds = c # cs" using assms(2) by (cases ds) auto
  with assms(1) have "is_digit c" by simp
  then have "c \<noteq> MINUS" "c \<noteq> 43" using digit_not_sign by auto
  with ds have t: "take 1 ds \<noteq> [MINUS]" "take 1 ds \<noteq> [43]" by auto
  have ok: "digit_groups_ok False ds" using assms by (simp add: digit_groups_ok_digits)
  have f: "filter is_digit ds = ds" using assms(1) by (simp add: list_all_iff)
  have "\<forall>c \<in> set ds. c \<noteq> 95" using assms(1) digit_not_sign by (auto simp: list_all_iff)
  then have g: "filter (\<lambda>c. c \<noteq> 95) ds = ds" by simp
  show ?thesis
    unfolding py_int_def Let_def strip_digits [OF assms(1)] using t ok by (simp add: f g)
qed

lemma get_page_num_no_token:
  assumes "\<not> has_page_token body vol"
  shows "get_page_num body vol = Inl AttributeError"
proof (cases "re_search (match_page_token vol) body")
  case None
  then show ?thesis by (simp add: get_page_num_def)
next
  case (Some ds)
  from re_search_Some [OF this] obtain a r where
    "body = a @ r" "match_page_token vol r = Some ds" by blast
  with match_page_token_Some [of vol r ds] have "has_page_token body vol"
    unfolding has_page_token_def by blast
  with assms show ?thesis by simp
qed

lemma get_page_num_token:
  assumes "has_page_token body vol"
  shows "\<exists>pg. re_search (match_page_token vol) body = Some pg \<and> pg \<noteq> [] \<and> list_all is_digit pg \<and>
    get_page_num body vol =
      (if length pg > int_max_str_digits then Inl ValueError
       else Inr (int (foldl (\<lambda>a c. 10 * a + digit_value c) 0 pg)))"
proof -
  from assms obtain a ds b where
    body: "body = a @ [LT, 112] @ str_int vol @ [MINUS] @ ds @ [GT] @ b"
    and ds: "ds \<noteq> []" "list_all is_digit ds"
    unfolding has_page_token_def by blast
  have "re_search (match_page_token vol) body \<noteq> None"
    unfolding body using match_page_token_complete [OF ds, of vol b]
    by (intro re_search_append) simp
  then obtain pg where pg: "re_search (match_page_token vol) body = Some pg" by auto
  from re_search_Some [OF this] obtain r where "match_page_token vol r = Some pg" by blast
  from match_page_token_Some [OF this] have p: "pg \<noteq> []" "list_all is_digit pg" by auto
  from py_int_digits [OF p(2,1)] pg p show ?thesis by (simp add: get_page_num_def)
qed

lemma get_page_num_attribute_error_iff:
  "get_page_num body vol = Inl AttributeError \<longleftrightarrow> \<not> has_page_token body vol"
proof (cases "has_page_token body vol")
  case True
  from get_page_num_token [OF this] have "get_page_num body vol \<noteq> Inl AttributeError"
    by (auto split: if_splits)
  with True show ?thesis by simp
next
  case False
  from get_page_num_no_token [OF this] False show ?thesis by simp
qed

lemma no_page_token_single: "\<not> has_page_token [c] vol"
proof
  assume "has_page_token [c] vol"
  then obtain a ds b where "[c] = a @ [LT, 112] @ str_int vol @ [MINUS] @ ds @ [GT] @ b"
    unfolding has_page_token_def by blast
  then have "length [c] = length (a @ [LT, 112] @ str_int vol @ [MINUS] @ ds @ [GT] @ b)"
    by (rule arg_cong)
  then show False by simp
qed

text \<open>
  C4, as stated: without a page token the extraction should fail with the condition
  \<open>PageNotFound\<close>. On the body text \<open>x\<close> and volume 1, which has no page token, the
  failure is the AttributeError of \<open>group\<close> taken on \<open>None\<close>.
\<close>

theorem get_page_num_not_page_not_found:
  "\<not> has_page_token [120] 1 \<and> get_page_num [120] 1 = Inl AttributeError
   \<and> get_page_num [120] 1 \<noteq> Inl PageNotFound"
  using no_page_token_single [of 120 1] get_page_num_no_token [of "[120]" 1] by simp

text \<open>
  C4, amended: when the text has no page token of the volume, \<open>get_page_num\<close> fails with
  the AttributeError of \<open>group\<close> taken on \<open>None\<close>, not with a condition \<open>PageNotFound\<close>,
  and the failure reaches the caller: no page number is returned in its place.
\<close>

theorem get_page_num_attribute_error:
  "\<not> has_page_token body vol \<longrightarrow>
     get_page_num body vol = Inl AttributeError \<and>
     get_page_num body vol \<noteq> Inl PageNotFound \<and>
     (\<forall>n. get_page_num body vol \<noteq> Inr n)"
  using get_page_num_no_token [of body vol] by simp

theorem get_page_num_attribute_error_witness:
  "\<not> has_page_token [120] 1 \<and> get_page_num [120] 1 = Inl AttributeError \<and>
   get_page_num [120] 1 \<noteq> Inl PageNotFound \<and> (\<forall>n. get_page_num [120] 1 \<noteq> Inr n)"
  using get_page_num_attribute_error [of "[120]" 1] no_page_token_single [of 120 1] by simp

section \<open>Properties of the tag patterns and of the footnote grouping\<close>

lemma lazy_close_Some:
  "lazy_close ok cs = Some n \<Longrightarrow> \<exists>y b. cs = y @ [GT] @ b \<and> list_all ok y \<and> GT \<notin> set y \<and> n = Suc (length y)"
proof (induction cs arbitrary: n)
  case Nil
  then show ?case by simp
next
  case (Cons c cs)
  show ?case
  proof (cases "c = GT")
    case True
    with Cons.prems have "n = 1" by simp
    with True have "c # cs = [] @ [GT] @ cs \<and> list_all ok [] \<and> GT \<notin> set [] \<and> n = Suc (length ([]::nat list))" by simp
    then show ?thesis by blast
  next
    case False
    with Cons.prems obtain k where k: "ok c" "lazy_close ok cs = Some k" "n = Suc k"
      by (auto split: if_splits)
    from Cons.IH [OF k(2)] obtain y b where
      "cs = y @ [GT] @ b" "list_all ok y" "GT \<notin> set y" "k = Suc (length y)" by blast
    with k False have "c # cs = (c # y) @ [GT] @ b \<and> list_all ok (c # y) \<and> GT \<notin> set (c # y)
      \<and> n = Suc (length (c # y))" by simp
    then show ?thesis by blast
  qed
qed

lemma match_tag_Some:
  assumes "match_tag pre ok s = Some n"
  shows "\<exists>c y b. s = pre @ (c # y) @ [GT] @ b \<and> ok c \<and> list_all ok y \<and> GT \<notin> set y
    \<and> n = length pre + length y + 2"
proof -
  from assms have "starts_with pre s" by (simp add: match_tag_def split: if_splits)
  then obtain r where r: "s = pre @ r" by (auto simp: starts_with_iff)
  with assms obtain c cs k where c: "r = c # cs" "ok c" "lazy_close ok cs = Some k"
    "n = length pre + 1 + k"
    by (auto simp: match_tag_def starts_with_iff split: list.splits if_splits)
  from lazy_close_Some [OF c(3)] obtain y b where
    "cs = y @ [GT] @ b" "list_all ok y" "GT \<notin> set y" "k = Suc (length y)" by blast
  with r c have "s = pre @ (c # y) @ [GT] @ b \<and> ok c \<and> list_all ok y \<and> GT \<notin> set y
    \<and> n = length pre + length y + 2" by simp
  then show ?thesis by blast
qed

lemma re_scan_match:
  "fst (re_scan m s) \<noteq> [] \<Longrightarrow> \<exists>a r n. s = a @ r \<and> m r = Some (Suc n)"
proof (induction s)
  case Nil
  then show ?case by simp
next
  case (Cons c cs)
  show ?case
  proof (cases "\<exists>n. m (c # cs) = Some (Suc n)")
    case True
    then obtain n where "c # cs = [] @ (c # cs) \<and> m (c # cs) = Some (Suc n)" by auto
    then show ?thesis by blast
  next
    case False
    then have "m (c # cs) = None \<or> m (c # cs) = Some 0"
    proof (cases "m (c # cs)")
      case None
      then show ?thesis by simp
    next
      case (Some k)
      with False show ?thesis by (cases k) auto
    qed
    with Cons.prems have "fst (re_scan m cs) \<noteq> []"
      by (auto split: prod.splits list.splits)
    from Cons.IH [OF this] obtain a r n where "cs = a @ r" "m r = Some (Suc n)" by blast
    then have "c # cs = (c # a) @ r \<and> m r = Some (Suc n)" by simp
    then show ?thesis by blast
  qed
qed

lemma no_page_ref_finditer:
  assumes "\<not> has_page_ref footnotes"
  shows "re_finditer match_page_ref footnotes = []"
proof (rule ccontr)
  assume "re_finditer match_page_ref footnotes \<noteq> []"
  then have "fst (re_scan match_page_ref footnotes) \<noteq> []" by (simp add: re_finditer_def)
  from re_scan_match [OF this] obtain a r n where
    s: "footnotes = a @ r" and m: "match_page_ref r = Some (Suc n)" by blast
  from m have "match_tag [LT, 114] not_newline r = Some (Suc n)" by (simp add: match_page_ref_def)
  from match_tag_Some [OF this] obtain c y b where
    "r = [LT, 114] @ (c # y) @ [GT] @ b" "not_newline c" "list_all not_newline y" by blast
  with s have "footnotes = a @ [LT, 114] @ (c # y) @ [GT] @ b \<and> c # y \<noteq> [] \<and> NL \<notin> set (c # y)"
    by (auto simp: not_newline_def list_all_iff)
  then have "has_page_ref footnotes" unfolding has_page_ref_def by blast
  with assms show False by simp
qed

text \<open>
  C10. For every formatted footnote string without a page-reference token,
  \<open>postprocess_footnotes\<close> raises the IndexError of \<open>page_refs[0]\<close> on the empty list
  of page references; it returns no table, empty or numbered. \<open>reconstruct_footnote\<close>
  ends with this call and returns its result, so the error is its own.
\<close>

theorem postprocess_footnotes_without_page_ref:
  assumes "\<not> has_page_ref footnotes"
  shows "postprocess_footnotes footnotes vol_num = Inl IndexError"
  using no_page_ref_finditer [OF assms] by (simp add: postprocess_footnotes_def)

lemma no_page_ref_without_r:
  assumes "114 \<notin> set s"
  shows "\<not> has_page_ref s"
proof
  assume "has_page_ref s"
  then obtain a x b where "s = a @ [LT, 114] @ x @ [GT] @ b" unfolding has_page_ref_def by blast
  then have "114 \<in> set s" by simp
  with assms show False by simp
qed

theorem postprocess_footnotes_without_page_ref_witness:
  "\<not> has_page_ref [LT, 49, COMMA, 0x2460, GT, 110] \<and>
   postprocess_footnotes [LT, 49, COMMA, 0x2460, GT, 110] 1 = Inl IndexError"
proof -
  have "\<not> has_page_ref [LT, 49, COMMA, 0x2460, GT, 110]"
    by (rule no_page_ref_without_r) simp
  with postprocess_footnotes_without_page_ref [of "[LT, 49, COMMA, 0x2460, GT, 110]" 1]
  show ?thesis by simp
qed

section \<open>Properties of the page merger\<close>

lemma split_char_not_Nil: "split_char d s \<noteq> []"
  by (induction s) (auto split: list.splits)

lemma split_char_two:
  "d \<in> set s \<Longrightarrow> \<exists>x y rest. split_char d s = x # y # rest"
proof (induction s)
  case Nil
  then show ?case by simp
next
  case (Cons c cs)
  show ?case
  proof (cases "c = d")
    case True
    obtain y rest where "split_char d cs = y # rest"
      using split_char_not_Nil [of d cs] by (cases "split_char d cs") auto
    with True show ?thesis by simp
  next
    case False
    with Cons.prems have "d \<in> set cs" by simp
    from Cons.IH [OF this] obtain x y rest where "split_char d cs = x # y # rest" by blast
    with False show ?thesis by simp
  qed
qed

lemma merge_repl_total:
  assumes "search_p_tag marker \<or> COMMA \<in> set (butlast (tl marker))"
  shows "\<exists>r. merge_repl marker foot_note = Inr r"
proof (cases "search_p_tag marker")
  case True
  then show ?thesis by (simp add: merge_repl_def)
next
  case False
  with assms have "COMMA \<in> set (butlast (tl marker))" by simp
  from split_char_two [OF this] obtain x y rest where
    "split_char COMMA (butlast (tl marker)) = x # y # rest" by blast
  with False show ?thesis by (simp add: merge_repl_def Let_def)
qed

lemma merge_loop_total:
  assumes "list_all (\<lambda>(marker, foot_note). search_p_tag marker \<or> COMMA \<in> set (butlast (tl marker))) ps"
  shows "\<exists>r. merge_loop ps acc = Inr r"
  using assms
proof (induction ps arbitrary: acc)
  case Nil
  then show ?case by simp
next
  case (Cons p ps)
  obtain marker foot_note where p: "p = (marker, foot_note)" by (cases p)
  obtain w wo where acc: "acc = (w, wo)" by (cases acc)
  from Cons.prems p have "search_p_tag marker \<or> COMMA \<in> set (butlast (tl marker))" by simp
  from merge_repl_total [OF this] obtain r1 r2 where
    r: "merge_repl marker foot_note = Inr (r1, r2)" by fastforce
  from Cons.prems have "list_all (\<lambda>(marker, foot_note). search_p_tag marker \<or> COMMA \<in> set (butlast (tl marker))) ps"
    by simp
  from Cons.IH [OF this] show ?case by (simp add: p acc r)
qed

lemma merge_never_fails_on_length:
  assumes "list_all (\<lambda>marker. search_p_tag marker \<or> COMMA \<in> set (butlast (tl marker)))
             (re_finditer match_marker page)"
  shows "\<exists>r. merge_footnotes_per_page page foot_notes = Inr r"
proof -
  have "list_all (\<lambda>(marker, foot_note). search_p_tag marker \<or> COMMA \<in> set (butlast (tl marker)))
          (zip (re_finditer match_marker page) foot_notes)"
    using assms by (auto simp: list_all_iff dest: set_zip_leftD)
  from merge_loop_total [OF this] show ?thesis by (simp add: merge_footnotes_per_page_def)
qed

lemma zip_take_both: "zip xs ys = zip (take (length ys) xs) (take (length xs) ys)"
  by (induction xs ys rule: list_induct2') auto

lemma merge_pairs_up_to_shorter:
  "merge_footnotes_per_page page foot_notes =
     merge_loop (zip (take (length foot_notes) (re_finditer match_marker page))
                     (take (length (re_finditer match_marker page)) foot_notes)) (page, page)"
proof -
  have "zip (re_finditer match_marker page) foot_notes =
        zip (take (length foot_notes) (re_finditer match_marker page))
            (take (length (re_finditer match_marker page)) foot_notes)"
    by (rule zip_take_both)
  then show ?thesis by (simp add: merge_footnotes_per_page_def)
qed

section \<open>Page tokens through the merger\<close>


lemma find_sub_le: "find_sub old s = Some k \<Longrightarrow> k + length old \<le> length s"
proof -
  assume a: "find_sub old s = Some k"
  have le: "\<And>j. find_sub old s = Some j \<Longrightarrow> j \<le> length s"
  proof (induction s)
    case Nil
    then show ?case by (simp split: if_splits)
  next
    case (Cons c cs)
    then show ?case by (auto split: if_splits)
  qed
  from find_sub_Some [OF a] obtain r where r: "s = take k s @ old @ r" by blast
  have "length s = length (take k s @ old @ r)" using r by simp
  also have "\<dots> = k + length old + length r" using le [OF a] by simp
  finally show ?thesis by simp
qed

lemma replace_first_found:
  assumes "find_sub old s = Some k"
  shows "\<exists>p r. s = p @ old @ r \<and> replace_first old new s = p @ new @ r"
proof -
  from find_sub_Some [OF assms] obtain r where r: "s = take k s @ old @ r" by blast
  have k: "k \<le> length s" using find_sub_le [OF assms] by simp
  have "drop (k + length old) s = drop (k + length old) (take k s @ old @ r)" using r by simp
  also have "\<dots> = r" using k by simp
  finally have "replace_first old new s = take k s @ new @ r"
    using assms by (simp add: replace_first_def)
  with r show ?thesis by blast
qed

lemma replace_first_same: "replace_first m m s = s"
proof (cases "find_sub m s")
  case None
  then show ?thesis by (simp add: replace_first_def)
next
  case (Some k)
  from replace_first_found [OF this, of m] show ?thesis by auto
qed









lemma str_nat_digits: "set (str_nat n) \<subseteq> {48..57}"
proof (induction n rule: str_nat.induct)
  case (1 n)
  show ?case
  proof (cases "n < 10")
    case True
    then show ?thesis by (subst str_nat.simps) simp
  next
    case False
    have "n mod 10 < 10" by simp
    then have "48 + n mod 10 \<in> {48..57}" by simp
    with 1 [OF False] False show ?thesis by (subst str_nat.simps) simp
  qed
qed














text \<open>
  The pattern by which \<open>filter_diffs\<close> recognises a page number allows any character that
  is not a digit between the volume and the page, the pattern of \<open>get_pg_ann\<close> only
  characters that are not white space: a page number written after a space is tagged as
  a page and then not rendered.
\<close>

lemma get_pg_ann_space_separator:
  "search_page_no (str_int 1) [49, SPC, 50, 51] \<and> get_pg_ann [49, SPC, 50, 51] 1 = Inl AttributeError"
  by (simp add: get_pg_ann_def match_pg_no_def str_int_def str_nat.simps is_digit_def
      nd_starts_def not_space_def is_space_def nondigit_ahead_def digit_ahead_def)




section \<open>Properties of the renumbering\<close>

lemma replace_first_Cons:
  "replace_first old new (c # cs) =
     (if starts_with old (c # cs) then new @ drop (length old) (c # cs)
      else c # replace_first old new cs)"
  by (cases "find_sub old cs") (simp_all add: replace_first_def)

lemma replace_first_skip_text:
  "LT \<notin> set t \<Longrightarrow> replace_first (LT # x) new (t @ S) = t @ replace_first (LT # x) new S"
  by (induction t) (simp_all add: replace_first_Cons)

lemma starts_with_body:
  "GT \<notin> set b \<Longrightarrow> GT \<notin> set b' \<Longrightarrow> starts_with (b @ [GT]) (b' @ GT # S) \<Longrightarrow> b = b'"
proof (induction b arbitrary: b')
  case Nil
  then show ?case by (cases b') auto
next
  case (Cons c b)
  then show ?case by (cases b') auto
qed

lemma replace_first_skip_token:
  assumes "GT \<notin> set b" "GT \<notin> set b'" "LT \<notin> set b'" "b \<noteq> b'"
  shows "replace_first (LT # b @ [GT]) new (LT # b' @ GT # S)
    = LT # b' @ GT # replace_first (LT # b @ [GT]) new S"
proof -
  have "\<not> starts_with (LT # b @ [GT]) (LT # b' @ GT # S)"
    using starts_with_body [OF assms(1,2)] assms(4) by auto
  then have "replace_first (LT # b @ [GT]) new (LT # b' @ GT # S)
    = LT # replace_first (LT # b @ [GT]) new (b' @ GT # S)"
    by (simp add: replace_first_Cons)
  also have "replace_first (LT # b @ [GT]) new (b' @ GT # S)
    = b' @ replace_first (LT # b @ [GT]) new (GT # S)"
    using assms(3) by (rule replace_first_skip_text)
  also have "replace_first (LT # b @ [GT]) new (GT # S)
    = GT # replace_first (LT # b @ [GT]) new S"
    by (simp add: replace_first_Cons)
  finally show ?thesis by simp
qed

lemma starts_with_self: "starts_with p (p @ S)"
  by (simp add: starts_with_iff)

lemma replace_first_head: "replace_first (LT # x) new ((LT # x) @ S) = new @ S"
  using starts_with_self [of "LT # x" S] by (simp add: replace_first_Cons)

lemma render_page_append:
  "render_page (xs @ ys) tail = render_page xs (render_page ys tail)"
  by (induction xs) auto

lemma replace_first_through_done:
  assumes "list_all (\<lambda>(t', b'). LT \<notin> set t' \<and> LT \<notin> set b' \<and> GT \<notin> set b' \<and> b' \<noteq> b) done"
    and "GT \<notin> set b"
  shows "replace_first (LT # b @ [GT]) new (render_page done Z)
    = render_page done (replace_first (LT # b @ [GT]) new Z)"
  using assms(1)
proof (induction "done")
  case Nil
  then show ?case by simp
next
  case (Cons p ps)
  obtain t' b' where p: "p = (t', b')" by (cases p)
  from Cons.prems p have h: "LT \<notin> set t'" "LT \<notin> set b'" "GT \<notin> set b'" "b \<noteq> b'"
    and rest: "list_all (\<lambda>(t', b'). LT \<notin> set t' \<and> LT \<notin> set b' \<and> GT \<notin> set b' \<and> b' \<noteq> b) ps"
    by auto
  have "replace_first (LT # b @ [GT]) new (render_page (p # ps) Z)
    = t' @ replace_first (LT # b @ [GT]) new (LT # b' @ GT # render_page ps Z)"
    using replace_first_skip_text [OF h(1)] by (simp add: p)
  also have "\<dots> = t' @ LT # b' @ GT # replace_first (LT # b @ [GT]) new (render_page ps Z)"
    using replace_first_skip_token [OF assms(2) h(3) h(2) h(4)] by simp
  also have "\<dots> = render_page (p # ps) (replace_first (LT # b @ [GT]) new Z)"
    using Cons.IH [OF rest] by (simp add: p)
  finally show ?case .
qed

lemma str_nat_no_bracket: "LT \<notin> set (str_nat i) \<and> GT \<notin> set (str_nat i) \<and> NL \<notin> set (str_nat i)"
  using str_nat_digits [of i] by auto

lemma renumber_loop_pages:
  assumes "list_all (\<lambda>(t', b'). LT \<notin> set t' \<and> LT \<notin> set b' \<and> GT \<notin> set b') done"
    and "list_all plain_seg rest"
    and "\<forall>(t', b') \<in> set done. \<forall>(t, b) \<in> set rest. b \<noteq> b'"
    and "no_clash i rest"
  shows "renumber_loop i (map marker_token rest) (render_page (done @ rest) tail)
    = render_page (done @ number_from i rest) tail"
  using assms
proof (induction rest arbitrary: "done" i)
  case Nil
  then show ?case by simp
next
  case (Cons p rest)
  obtain t b where p: "p = (t, b)" by (cases p)
  let ?nb = "str_nat i @ [COMMA] @ b"
  let ?new = "[LT] @ str_nat i @ [COMMA] @ butlast (tl (marker_token p)) @ [GT]"
  let ?R = "render_page rest tail"
  from Cons.prems(2) p have pb: "LT \<notin> set t" "b \<noteq> []" "LT \<notin> set b" "GT \<notin> set b"
    and rest_ok: "list_all plain_seg rest"
    by (auto simp: plain_seg_def)
  have tok: "marker_token p = LT # b @ [GT]" by (simp add: p marker_token_def)
  have new: "?new = (LT # ?nb) @ [GT]" by (simp add: tok butlast_append)
  have d: "list_all (\<lambda>(t', b'). LT \<notin> set t' \<and> LT \<notin> set b' \<and> GT \<notin> set b' \<and> b' \<noteq> b) done"
    using Cons.prems(1,3) p by (fastforce simp: list_all_iff)
  have "replace_first (marker_token p) ?new (render_page (done @ p # rest) tail)
    = render_page done (replace_first (LT # b @ [GT]) ?new (t @ (LT # b @ [GT]) @ ?R))"
    unfolding tok render_page_append
    using replace_first_through_done [OF d pb(4)] by (simp add: p)
  also have "replace_first (LT # b @ [GT]) ?new (t @ (LT # b @ [GT]) @ ?R) = t @ ?new @ ?R"
    using replace_first_skip_text [OF pb(1)] replace_first_head [of "b @ [GT]" ?new ?R]
    by simp
  also have "render_page done (t @ ?new @ ?R) = render_page ((done @ [(t, ?nb)]) @ rest) tail"
    unfolding new by (simp add: render_page_append)
  finally have step: "replace_first (marker_token p) ?new (render_page (done @ p # rest) tail)
    = render_page ((done @ [(t, ?nb)]) @ rest) tail" .
  have d': "list_all (\<lambda>(t', b'). LT \<notin> set t' \<and> LT \<notin> set b' \<and> GT \<notin> set b') (done @ [(t, ?nb)])"
    using Cons.prems(1) pb str_nat_no_bracket [of i] by simp
  have dis: "\<forall>(t', b') \<in> set (done @ [(t, ?nb)]). \<forall>(t'', b'') \<in> set rest. b'' \<noteq> b'"
    using Cons.prems(3,4) p by (fastforce simp: list_all_iff)
  have nc: "no_clash (Suc i) rest" using Cons.prems(4) p by simp
  have "renumber_loop i (map marker_token (p # rest)) (render_page (done @ p # rest) tail)
    = renumber_loop (Suc i) (map marker_token rest)
        (render_page ((done @ [(t, ?nb)]) @ rest) tail)"
    using step by simp
  also have "\<dots> = render_page ((done @ [(t, ?nb)]) @ number_from (Suc i) rest) tail"
    by (rule Cons.IH [OF d' rest_ok dis nc])
  finally show ?case by (simp add: p)
qed

lemma re_scan_skip_text:
  assumes f: "\<And>c cs. c \<noteq> LT \<Longrightarrow> f (c # cs) = None"
    and "LT \<notin> set t"
  shows "re_scan f (t @ S) =
    (case re_scan f S of
       ([], u) \<Rightarrow> ([], t @ u)
     | ((pre, mt) # ps, u) \<Rightarrow> ((t @ pre, mt) # ps, u))"
  using assms(2)
proof (induction t)
  case Nil
  then show ?case by (auto split: prod.splits list.splits)
next
  case (Cons c t)
  then have "f (c # t @ S) = None" using f by simp
  with Cons show ?case by (auto split: prod.splits list.splits)
qed

lemma lazy_close_body:
  "GT \<notin> set y \<Longrightarrow> list_all ok y \<Longrightarrow> lazy_close ok (y @ GT # S) = Some (Suc (length y))"
  by (induction y) auto

lemma match_marker_token:
  assumes "b \<noteq> []" "GT \<notin> set b" "NL \<notin> set b"
  shows "match_marker (LT # b @ GT # S) = Some (Suc (Suc (length b)))"
proof -
  obtain c y where b: "b = c # y" using assms(1) by (cases b) auto
  with assms have "GT \<notin> set y" "list_all not_newline y" "not_newline c"
    by (auto simp: not_newline_def list_all_iff)
  from lazy_close_body [OF this(1,2), of S] this(3) b show ?thesis
    by (simp add: match_marker_def match_tag_def)
qed

lemma match_marker_not_LT: "c \<noteq> LT \<Longrightarrow> match_marker (c # cs) = None"
  by (simp add: match_marker_def match_tag_def)

lemma re_scan_render_page:
  assumes "list_all plain_seg segs" "LT \<notin> set tail"
  shows "re_scan match_marker (render_page segs tail)
    = (map (\<lambda>p. (fst p, marker_token p)) segs, tail)"
  using assms(1)
proof (induction segs)
  case Nil
  have "re_scan match_marker [] = ([], [])" by simp
  with re_scan_skip_text [of match_marker tail "[]"] match_marker_not_LT assms(2)
  show ?case by simp
next
  case (Cons p segs)
  obtain t b where p: "p = (t, b)" by (cases p)
  from Cons.prems p have pb: "LT \<notin> set t" "b \<noteq> []" "GT \<notin> set b" "NL \<notin> set b"
    and rest: "list_all plain_seg segs" by (auto simp: plain_seg_def)
  let ?R = "render_page segs tail"
  have "re_scan match_marker (LT # b @ GT # ?R)
    = (([], LT # b @ [GT]) # map (\<lambda>p. (fst p, marker_token p)) segs, tail)"
    using match_marker_token [OF pb(2,3,4), of ?R] Cons.IH [OF rest] by simp
  with re_scan_skip_text [of match_marker t "LT # b @ GT # ?R"] match_marker_not_LT pb(1)
  show ?case by (simp add: p marker_token_def)
qed

lemma plain_number_from:
  "list_all plain_seg segs \<Longrightarrow> list_all plain_seg (number_from i segs)"
proof (induction segs arbitrary: i)
  case Nil
  then show ?case by simp
next
  case (Cons p segs)
  obtain t b where p: "p = (t, b)" by (cases p)
  with Cons show ?case using str_nat_no_bracket [of i] by (auto simp: plain_seg_def)
qed

lemma renumber_markers_render_page:
  assumes "list_all plain_seg segs" "LT \<notin> set tail" "no_clash 1 segs"
  shows "renumber_markers (render_page segs tail) = render_page (number_from 1 segs) tail"
proof -
  have "re_finditer match_marker (render_page segs tail) = map marker_token segs"
    using re_scan_render_page [OF assms(1,2)] by (simp add: re_finditer_def comp_def)
  then show ?thesis
    using renumber_loop_pages [of "[]" segs 1 tail] assms
    by (simp add: renumber_markers_def)
qed

lemma match_page_ann_not_LT: "c \<noteq> LT \<Longrightarrow> match_page_ann (c # cs) = None"
  by (simp add: match_page_ann_def match_tag_def)

lemma prepend_text_assoc: "prepend_text A (prepend_text B r) = prepend_text (A @ B) r"
  by (cases r) (auto simp: prepend_text_def split: list.splits)

lemma re_scan_prepend:
  assumes "\<And>c cs. c \<noteq> LT \<Longrightarrow> f (c # cs) = None" "LT \<notin> set t"
  shows "re_scan f (t @ S) = prepend_text t (re_scan f S)"
  using re_scan_skip_text [of f t S] assms by (simp add: prepend_text_def)

lemma re_scan_no_match_head:
  "f (c # cs) = None \<Longrightarrow> re_scan f (c # cs) = prepend_text [c] (re_scan f cs)"
  by (simp add: prepend_text_def split: prod.splits list.splits)

lemma re_scan_page_prepend:
  assumes "list_all plain_seg segs" "list_all (\<lambda>(t, b). take 1 b \<noteq> [112]) segs" "LT \<notin> set tail"
  shows "re_scan match_page_ann (render_page segs tail @ S)
    = prepend_text (render_page segs tail) (re_scan match_page_ann S)"
  using assms(1,2)
proof (induction segs)
  case Nil
  show ?case using re_scan_prepend [of match_page_ann tail S] match_page_ann_not_LT assms(3)
    by simp
next
  case (Cons p segs)
  obtain t b where p: "p = (t, b)" by (cases p)
  from Cons.prems p have pb: "LT \<notin> set t" "b \<noteq> []" "LT \<notin> set b" "take 1 b \<noteq> [112]"
    and rest: "list_all plain_seg segs" "list_all (\<lambda>(t, b). take 1 b \<noteq> [112]) segs"
    by (auto simp: plain_seg_def)
  let ?R = "render_page segs tail @ S"
  have R: "re_scan match_page_ann ?R
    = prepend_text (render_page segs tail) (re_scan match_page_ann S)"
    by (rule Cons.IH [OF rest])
  have "LT \<notin> set (b @ [GT])" using pb(3) by simp
  then have bR: "re_scan match_page_ann ((b @ [GT]) @ ?R)
    = prepend_text (b @ [GT]) (re_scan match_page_ann ?R)"
    using re_scan_prepend [of match_page_ann "b @ [GT]" ?R] match_page_ann_not_LT by blast
  have "match_page_ann (LT # (b @ [GT]) @ ?R) = None"
    using pb(2,4) by (cases b) (auto simp: match_page_ann_def match_tag_def)
  then have "re_scan match_page_ann (LT # (b @ [GT]) @ ?R)
    = prepend_text [LT] (re_scan match_page_ann ((b @ [GT]) @ ?R))"
    by (rule re_scan_no_match_head)
  then have "re_scan match_page_ann (LT # (b @ [GT]) @ ?R)
    = prepend_text ([LT] @ (b @ [GT]) @ render_page segs tail) (re_scan match_page_ann S)"
    unfolding bR R by (simp add: prepend_text_assoc)
  moreover have "re_scan match_page_ann (t @ LT # (b @ [GT]) @ ?R)
    = prepend_text t (re_scan match_page_ann (LT # (b @ [GT]) @ ?R))"
    using re_scan_prepend [of match_page_ann t "LT # (b @ [GT]) @ ?R"] match_page_ann_not_LT
      pb(1) by blast
  ultimately have "re_scan match_page_ann (t @ LT # (b @ [GT]) @ ?R)
    = prepend_text (t @ [LT] @ (b @ [GT]) @ render_page segs tail) (re_scan match_page_ann S)"
    by (simp add: prepend_text_assoc)
  then show ?case by (simp add: p)
qed

lemma match_tag_complete:
  assumes "ok c" "list_all ok y" "GT \<notin> set y"
  shows "match_tag pre ok (pre @ (c # y) @ [GT] @ S) = Some (length pre + length y + 2)"
proof -
  have "starts_with pre (pre @ (c # y) @ [GT] @ S)" by (simp add: starts_with_iff)
  moreover have "lazy_close ok (y @ GT # S) = Some (Suc (length y))"
    using assms(2,3) by (intro lazy_close_body)
  ultimately show ?thesis using assms(1) by (simp add: match_tag_def)
qed

lemma match_page_ann_extend:
  assumes "match_page_ann a = Some (length a)"
  shows "match_page_ann (a @ S) = Some (length a) \<and> a \<noteq> []"
proof -
  from assms have "match_tag [LT, 112] not_space a = Some (length a)"
    by (simp add: match_page_ann_def)
  from match_tag_Some [OF this] obtain c y b where
    a: "a = [LT, 112] @ (c # y) @ [GT] @ b" and ok: "not_space c" "list_all not_space y"
      "GT \<notin> set y" and n: "length a = length [LT, 112] + length y + 2"
    by blast
  from n have "b = []" by (subst (asm) a) simp
  with a have a': "a = [LT, 112] @ (c # y) @ [GT]" by simp
  have "match_tag [LT, 112] not_space ([LT, 112] @ (c # y) @ [GT] @ S)
    = Some (length [LT, 112] + length y + 2)"
    using ok by (rule match_tag_complete)
  then have "match_page_ann (a @ S) = Some (length a)"
    unfolding match_page_ann_def by (subst (1 2) a') simp
  moreover have "a \<noteq> []" using a' by auto
  ultimately show ?thesis by simp
qed

lemma re_scan_match_head:
  assumes "f (a @ S) = Some (length a)" "a \<noteq> []"
  shows "re_scan f (a @ S) = (([], a) # fst (re_scan f S), snd (re_scan f S))"
proof -
  obtain c cs where a: "a = c # cs" using assms(2) by (cases a) auto
  with assms(1) have "f (c # cs @ S) = Some (Suc (length cs))" by simp
  then show ?thesis by (simp add: a split: prod.splits)
qed

lemma re_scan_render_text:
  assumes "list_all (\<lambda>(s, t, a). good_page s t \<and> match_page_ann a = Some (length a)) pages"
    and "good_page segs tail"
  shows "re_scan match_page_ann (render_text pages (segs, tail))
    = (map (\<lambda>(s, t, a). (render_page s t, a)) pages, render_page segs tail)"
  using assms(1)
proof (induction pages)
  case Nil
  from assms(2) have "re_scan match_page_ann (render_page segs tail @ [])
    = prepend_text (render_page segs tail) (re_scan match_page_ann [])"
    unfolding good_page_def by (intro re_scan_page_prepend) auto
  then show ?case by (simp add: prepend_text_def)
next
  case (Cons p pages)
  obtain s t a where p: "p = (s, t, a)" by (cases p)
  from Cons.prems p have g: "good_page s t" and m: "match_page_ann a = Some (length a)"
    and rest: "list_all (\<lambda>(s, t, a). good_page s t \<and> match_page_ann a = Some (length a)) pages"
    by auto
  let ?T = "render_text pages (segs, tail)"
  have T: "re_scan match_page_ann ?T
    = (map (\<lambda>(s, t, a). (render_page s t, a)) pages, render_page segs tail)"
    by (rule Cons.IH [OF rest])
  from match_page_ann_extend [OF m, of ?T] have
    "re_scan match_page_ann (a @ ?T)
      = (([], a) # fst (re_scan match_page_ann ?T), snd (re_scan match_page_ann ?T))"
    by (intro re_scan_match_head) auto
  then have A: "re_scan match_page_ann (a @ ?T)
    = (([], a) # map (\<lambda>(s, t, a). (render_page s t, a)) pages, render_page segs tail)"
    unfolding T by simp
  from g have "re_scan match_page_ann (render_page s t @ (a @ ?T))
    = prepend_text (render_page s t) (re_scan match_page_ann (a @ ?T))"
    unfolding good_page_def by (intro re_scan_page_prepend) auto
  then show ?case unfolding A by (simp add: p prepend_text_def)
qed

lemma zip_longest_pages:
  "zip_longest (map f xs @ [l]) (map g xs) = map (\<lambda>x. (f x, g x)) xs @ [(l, [])]"
  by (induction xs) auto

lemma reformatting_body_render_text:
  assumes "list_all (\<lambda>(s, t, a). good_page s t \<and> match_page_ann a = Some (length a)) pages"
    and "good_page segs tail"
  shows "reformatting_body (render_text pages (segs, tail))
    = render_text (number_pages pages) (number_from 1 segs, tail)"
proof -
  let ?f = "\<lambda>p. render_page (fst p) (fst (snd p))" and ?g = "\<lambda>p. snd (snd p)"
  have sc: "re_scan match_page_ann (render_text pages (segs, tail))
    = (map (\<lambda>p. (?f p, ?g p)) pages, render_page segs tail)"
    using re_scan_render_text [OF assms] by (simp add: case_prod_beta)
  have z: "zip_longest (re_split match_page_ann (render_text pages (segs, tail)))
             (re_finditer match_page_ann (render_text pages (segs, tail)))
    = map (\<lambda>p. (?f p, ?g p)) pages @ [(render_page segs tail, [])]"
    unfolding re_split_def re_finditer_def sc
    using zip_longest_pages [of ?f pages "render_page segs tail" ?g]
    by (simp add: comp_def)
  have last_page: "renumber_markers (render_page segs tail)
    = render_page (number_from 1 segs) tail"
    using assms(2) unfolding good_page_def by (intro renumber_markers_render_page) auto
  have "concat (map (\<lambda>(page, ann). renumber_markers page @ ann)
                 (map (\<lambda>p. (?f p, ?g p)) pages))
          @ render_page (number_from 1 segs) tail
    = render_text (number_pages pages) (number_from 1 segs, tail)"
    using assms(1)
  proof (induction pages)
    case Nil
    then show ?case by (simp add: number_pages_def)
  next
    case (Cons p pages)
    obtain s t a where p: "p = (s, t, a)" by (cases p)
    from Cons.prems p have "good_page s t" by simp
    then have "renumber_markers (render_page s t) = render_page (number_from 1 s) t"
      unfolding good_page_def by (intro renumber_markers_render_page) auto
    moreover from Cons have "concat (map (\<lambda>(page, ann). renumber_markers page @ ann)
                 (map (\<lambda>p. (?f p, ?g p)) pages))
          @ render_page (number_from 1 segs) tail
      = render_text (number_pages pages) (number_from 1 segs, tail)"
      by simp
    ultimately show ?case by (simp add: p number_pages_def)
  qed
  then show ?thesis unfolding reformatting_body_def z by (simp add: last_page)
qed

text \<open>
  What the loop of \<open>reformatting_body\<close> achieves: for a body text whose page segments are
  good (in each segment \<open><\<close> occurs only as the opening bracket of a token, the marker
  bodies are not empty, have no \<open>>\<close> and no line feed and do not begin with \<open>p\<close>, and no
  token is the numbered form \<open><j,raw>\<close> of an earlier token of the segment), the \<open>i\<close>-th
  token \<open><raw>\<close> of each segment becomes \<open><i,raw>\<close>, for \<open>i\<close> from 1 to the number of
  tokens of the segment; the text between the tokens and the boundary tokens stay as
  they are, and the tokens of a renumbered segment are exactly these, in order.
\<close>

lemma renumbering_without_clash:
  "list_all (\<lambda>(s, t, a). good_page s t \<and> match_page_ann a = Some (length a)) pages
     \<and> good_page segs tail \<longrightarrow>
     reformatting_body (render_text pages (segs, tail))
       = render_text (number_pages pages) (number_from 1 segs, tail) \<and>
     renumber_markers (render_page segs tail) = render_page (number_from 1 segs) tail \<and>
     re_finditer match_marker (render_page (number_from 1 segs) tail)
       = map marker_token (number_from 1 segs)"
proof (intro impI conjI)
  assume h: "list_all (\<lambda>(s, t, a). good_page s t \<and> match_page_ann a = Some (length a)) pages
     \<and> good_page segs tail"
  then show "reformatting_body (render_text pages (segs, tail))
       = render_text (number_pages pages) (number_from 1 segs, tail)"
    using reformatting_body_render_text by blast
  from h have g: "list_all plain_seg segs" "LT \<notin> set tail" "no_clash 1 segs"
    by (simp_all add: good_page_def)
  then show "renumber_markers (render_page segs tail) = render_page (number_from 1 segs) tail"
    by (rule renumber_markers_render_page)
  from g(1) have "list_all plain_seg (number_from 1 segs)" by (rule plain_number_from)
  with g(2) re_scan_render_page [of "number_from 1 segs" tail]
  show "re_finditer match_marker (render_page (number_from 1 segs) tail)
       = map marker_token (number_from 1 segs)"
    by (simp add: re_finditer_def comp_def)
qed

text \<open>
  The text \<open>a<1,(1)>b<x>c<p1-2>d<y>e\<close> of two pages, with the circled digit one for
  \<open>(1)\<close>: the first page has two tokens, the second page starts again at 1.
\<close>

lemma renumbering_two_pages:
  "good_page [([97], [49, COMMA, 0x2460]), ([98], [120])] [99] \<and>
   match_page_ann [LT, 112, 49, MINUS, 50, GT] = Some 6 \<and>
   good_page [([100], [121])] [101] \<and>
   reformatting_body
     [97, LT, 49, COMMA, 0x2460, GT, 98, LT, 120, GT, 99, LT, 112, 49, MINUS, 50, GT,
      100, LT, 121, GT, 101]
     = [97, LT, 49, COMMA, 49, COMMA, 0x2460, GT, 98, LT, 50, COMMA, 120, GT, 99,
        LT, 112, 49, MINUS, 50, GT, 100, LT, 49, COMMA, 121, GT, 101]"
proof -
  have a: "good_page [([97], [49, COMMA, 0x2460]), ([98], [120])] [99]"
    by (simp add: good_page_def plain_seg_def str_nat.simps)
  have b: "match_page_ann [LT, 112, 49, MINUS, 50, GT] = Some 6"
    by (simp add: match_page_ann_def match_tag_def not_space_def is_space_def)
  have c: "good_page [([100], [121])] [101]"
    by (simp add: good_page_def plain_seg_def)
  from renumbering_without_clash
    [of "[([([97], [49, COMMA, 0x2460]), ([98], [120])], [99], [LT, 112, 49, MINUS, 50, GT])]"
      "[([100], [121])]" "[101]"] a b c
  show ?thesis by (simp add: number_pages_def str_nat.simps)
qed

text \<open>
  C2: in every page segment the marker tokens are to come out numbered 1 to \<open>n\<close> in the
  order of their occurrence, and the loop numbers them so with \<open>enumerate(markers, 1)\<close>.
  Each replacement, however, is made by \<open>page.replace(marker[0], repl, 1)\<close> at the first
  occurrence of the marker text in the page as rewritten so far, not at the place where
  the marker was found. On the segment \<open><a><1,a>\<close> the second replacement hits the first
  token, which by then reads \<open><1,a>\<close>: the result is \<open><2,1,a><1,a>\<close> and not
  \<open><1,a><2,1,a>\<close>; the first token carries the index 2 and the second token none.
\<close>

theorem reformatting_body_renumbers_wrong_token:
  "reformatting_body [LT, 97, GT, LT, 49, COMMA, 97, GT]
     = [LT, 50, COMMA, 49, COMMA, 97, GT, LT, 49, COMMA, 97, GT] \<and>
   reformatting_body [LT, 97, GT, LT, 49, COMMA, 97, GT]
     \<noteq> [LT, 49, COMMA, 97, GT, LT, 50, COMMA, 49, COMMA, 97, GT]"
  by (simp add: reformatting_body_def re_split_def re_finditer_def match_page_ann_def
      match_marker_def match_tag_def not_newline_def renumber_markers_def replace_first_def
      str_nat.simps)

section \<open>The outputs of the page merger on a page given by its parts\<close>

lemma split_char_parts: "x \<in> set (split_char d s) \<Longrightarrow> set x \<subseteq> set s \<and> d \<notin> set x"
proof (induction s arbitrary: x)
  case Nil
  then show ?case by simp
next
  case (Cons c cs)
  show ?case
  proof (cases "c = d")
    case True
    with Cons.prems have "x = [] \<or> x \<in> set (split_char d cs)" by simp
    with Cons.IH show ?thesis by auto
  next
    case False
    obtain y ys where y: "split_char d cs = y # ys"
      using split_char_not_Nil [of d cs] by (cases "split_char d cs") auto
    with False Cons.prems have "x = c # y \<or> x \<in> set ys" by simp
    moreover have "set y \<subseteq> set cs \<and> d \<notin> set y" using Cons.IH [of y] y by simp
    moreover have "x \<in> set ys \<Longrightarrow> set x \<subseteq> set cs \<and> d \<notin> set x"
      using Cons.IH [of x] y by simp
    ultimately show ?thesis using False by auto
  qed
qed

lemma split_char_tl:
  assumes "split_char d s = p # ps"
  shows "set (tl p) \<subseteq> set (tl s) \<and> (\<forall>x \<in> set ps. set x \<subseteq> set (tl s))"
proof (cases s)
  case Nil
  with assms show ?thesis by simp
next
  case (Cons c cs)
  show ?thesis
  proof (cases "c = d")
    case True
    with assms Cons have "p = []" "ps = split_char d cs" by simp_all
    with Cons split_char_parts [of _ d cs] show ?thesis by auto
  next
    case False
    obtain y ys where y: "split_char d cs = y # ys"
      using split_char_not_Nil [of d cs] by (cases "split_char d cs") auto
    with False assms Cons have "p = c # y" "ps = ys" by simp_all
    with Cons y split_char_parts [of _ d cs] show ?thesis by auto
  qed
qed

lemma merge_repl_bodies:
  assumes np: "\<not> page_body b" and c: "COMMA \<in> set b"
  shows "\<exists>body1 body2. merge_repl (LT # b @ [GT]) foot_note
      = Inr (LT # body1 @ [GT], LT # body2 @ [GT]) \<and>
    set body1 \<subseteq> set b \<union> set (tl foot_note) \<union> {COMMA, SEMI} \<and> GT \<notin> set body1 - set b \<and>
    set body2 \<subseteq> set (tl foot_note) \<and> GT \<notin> set body2"
proof -
  from split_char_two [OF c] obtain bi bv rest where
    sb: "split_char COMMA b = bi # bv # rest" by blast
  have bi: "set bi \<subseteq> set b" and bv: "set bv \<subseteq> set b"
    using split_char_parts [of bi COMMA b] split_char_parts [of bv COMMA b] sb by simp_all
  obtain p0 ps where P: "split_char GT foot_note = p0 # ps"
    using split_char_not_Nil [of GT foot_note] by (cases "split_char GT foot_note") auto
  obtain q0 qs where Q: "split_char COMMA p0 = q0 # qs"
    using split_char_not_Nil [of COMMA p0] by (cases "split_char COMMA p0") auto
  let ?fi = "drop 1 q0"
  let ?fv = "case q0 # qs of _ # v # _ \<Rightarrow> v | _ \<Rightarrow> []"
  let ?note = "case p0 # ps of _ # n # _ \<Rightarrow> n | _ \<Rightarrow> []"
  from split_char_tl [OF P] have p0: "set (tl p0) \<subseteq> set (tl foot_note)"
    and ps: "\<forall>x \<in> set ps. set x \<subseteq> set (tl foot_note)" by simp_all
  from split_char_tl [OF Q] have q0: "set (tl q0) \<subseteq> set (tl p0)"
    and qs: "\<forall>x \<in> set qs. set x \<subseteq> set (tl p0)" by simp_all
  have gp0: "GT \<notin> set p0" using split_char_parts [of p0 GT foot_note] P by simp
  have gps: "\<forall>x \<in> set ps. GT \<notin> set x" using split_char_parts [of _ GT foot_note] P by simp
  have gq0: "GT \<notin> set q0" using split_char_parts [of q0 COMMA p0] Q gp0 by auto
  have gqs: "\<forall>x \<in> set qs. GT \<notin> set x" using split_char_parts [of _ COMMA p0] Q gp0 by auto
  have "set (tl q0) \<subseteq> set q0" by (cases q0) auto
  with q0 p0 gq0 have fi: "set ?fi \<subseteq> set (tl foot_note)" "GT \<notin> set ?fi"
    by (auto simp: drop_Suc)
  from qs p0 have qs': "\<forall>x \<in> set qs. set x \<subseteq> set (tl foot_note)" by blast
  have fv: "set ?fv \<subseteq> set (tl foot_note)" "GT \<notin> set ?fv"
    using qs' gqs by (auto split: list.splits)
  have nt: "set ?note \<subseteq> set (tl foot_note)" "GT \<notin> set ?note"
    using ps gps by (auto split: list.splits)
  let ?body1 = "bi @ [COMMA] @ bv @ [SEMI] @ ?fi @ [COMMA] @ ?fv @ [COMMA] @ ?note"
  define m where "m = LT # b @ [GT]"
  have np': "\<not> search_p_tag m" using np unfolding m_def page_body_def .
  have sb': "split_char COMMA (butlast (tl m)) = bi # bv # rest"
    using sb by (simp add: m_def butlast_append)
  have "merge_repl m foot_note = Inr (LT # ?body1 @ [GT], LT # ?note @ [GT])"
    using np' sb' P Q by (simp add: merge_repl_def Let_def)
  then have "merge_repl (LT # b @ [GT]) foot_note
      = Inr (LT # ?body1 @ [GT], LT # ?note @ [GT])"
    unfolding m_def .
  moreover have "set ?body1 \<subseteq> set b \<union> set (tl foot_note) \<union> {COMMA, SEMI}"
    using bi bv fi(1) fv(1) nt(1) by auto
  moreover have "GT \<notin> set ?body1 - set b"
    using bi bv fi(2) fv(2) nt(2) by auto
  ultimately show ?thesis using nt by blast
qed

lemma paired_bodies_p_tag:
  assumes "page_body b"
  shows "merge_repl (LT # b @ [GT]) foot_note = Inr (LT # b @ [GT], LT # b @ [GT])"
    and "paired_bodies b foot_note = (b, b)"
proof -
  define m where "m = LT # b @ [GT]"
  have "search_p_tag m" using assms unfolding m_def page_body_def .
  then have "merge_repl m foot_note = Inr (m, m)" by (simp add: merge_repl_def)
  then show r: "merge_repl (LT # b @ [GT]) foot_note = Inr (LT # b @ [GT], LT # b @ [GT])"
    unfolding m_def .
  have "paired_bodies b foot_note
    = (case merge_repl (LT # b @ [GT]) foot_note of
         Inr (repl1, repl2) \<Rightarrow> (butlast (tl repl1), butlast (tl repl2))
       | Inl e \<Rightarrow> (b, b))"
    by (simp add: paired_bodies_def)
  then show "paired_bodies b foot_note = (b, b)" unfolding r by (simp add: butlast_append)
qed

lemma paired_bodies_token:
  assumes np: "\<not> page_body b" and c: "COMMA \<in> set b"
    and b: "LT \<notin> set b" "GT \<notin> set b" and fn: "LT \<notin> set (tl foot_note)"
  shows "merge_repl (LT # b @ [GT]) foot_note
      = Inr (LT # fst (paired_bodies b foot_note) @ [GT],
             LT # snd (paired_bodies b foot_note) @ [GT])"
    and "LT \<notin> set (fst (paired_bodies b foot_note))"
    and "GT \<notin> set (fst (paired_bodies b foot_note))"
    and "LT \<notin> set (snd (paired_bodies b foot_note))"
    and "GT \<notin> set (snd (paired_bodies b foot_note))"
proof -
  from merge_repl_bodies [OF np c, of foot_note] obtain body1 body2 where
    r: "merge_repl (LT # b @ [GT]) foot_note = Inr (LT # body1 @ [GT], LT # body2 @ [GT])"
    and s1: "set body1 \<subseteq> set b \<union> set (tl foot_note) \<union> {COMMA, SEMI}"
    and g1: "GT \<notin> set body1 - set b"
    and s2: "set body2 \<subseteq> set (tl foot_note)" and g2: "GT \<notin> set body2"
    by blast
  have "paired_bodies b foot_note
    = (case merge_repl (LT # b @ [GT]) foot_note of
         Inr (repl1, repl2) \<Rightarrow> (butlast (tl repl1), butlast (tl repl2))
       | Inl e \<Rightarrow> (b, b))"
    by (simp add: paired_bodies_def)
  then have pb: "paired_bodies b foot_note = (body1, body2)"
    unfolding r by (simp add: butlast_append)
  show "merge_repl (LT # b @ [GT]) foot_note
      = Inr (LT # fst (paired_bodies b foot_note) @ [GT],
             LT # snd (paired_bodies b foot_note) @ [GT])"
    unfolding pb using r by simp
  show "LT \<notin> set (fst (paired_bodies b foot_note))" unfolding pb using s1 b(1) fn by auto
  show "GT \<notin> set (fst (paired_bodies b foot_note))" unfolding pb using g1 b(2) by auto
  show "LT \<notin> set (snd (paired_bodies b foot_note))" unfolding pb using s2 fn by auto
  show "GT \<notin> set (snd (paired_bodies b foot_note))" unfolding pb using g2 by simp
qed

lemma replace_token_in_page:
  assumes d: "list_all (\<lambda>(t', b'). LT \<notin> set t' \<and> LT \<notin> set b' \<and> GT \<notin> set b') done"
    and t: "LT \<notin> set t" and b: "GT \<notin> set b"
    and n: "new = b \<or> (\<forall>(t', b') \<in> set done. b' \<noteq> b)"
  shows "replace_first (LT # b @ [GT]) (LT # new @ [GT]) (render_page (done @ (t, b) # rest) tail)
    = render_page ((done @ [(t, new)]) @ rest) tail"
proof (cases "new = b")
  case True
  then show ?thesis by (simp add: replace_first_same render_page_append)
next
  case False
  with n have "\<forall>(t', b') \<in> set done. b' \<noteq> b" by simp
  with d have d': "list_all (\<lambda>(t', b'). LT \<notin> set t' \<and> LT \<notin> set b' \<and> GT \<notin> set b' \<and> b' \<noteq> b) done"
    by (fastforce simp: list_all_iff)
  let ?R = "render_page rest tail"
  let ?new = "LT # new @ [GT]"
  have "replace_first (LT # b @ [GT]) ?new (render_page (done @ (t, b) # rest) tail)
    = render_page done (replace_first (LT # b @ [GT]) ?new (t @ (LT # b @ [GT]) @ ?R))"
    unfolding render_page_append
    using replace_first_through_done [OF d' b] by simp
  also have "replace_first (LT # b @ [GT]) ?new (t @ (LT # b @ [GT]) @ ?R) = t @ ?new @ ?R"
    using replace_first_skip_text [OF t] replace_first_head [of "b @ [GT]" ?new ?R]
    by simp
  also have "render_page done (t @ ?new @ ?R) = render_page ((done @ [(t, new)]) @ rest) tail"
    by (simp add: render_page_append)
  finally show ?thesis .
qed

lemma merge_loop_pages:
  assumes "list_all (\<lambda>(t', b'). LT \<notin> set t' \<and> LT \<notin> set b' \<and> GT \<notin> set b') done1"
    and "list_all (\<lambda>(t', b'). LT \<notin> set t' \<and> LT \<notin> set b' \<and> GT \<notin> set b') done2"
    and "list_all plain_seg rest"
    and "\<forall>(t, b) \<in> set (take (length fns) rest). \<not> page_body b \<longrightarrow>
           (\<forall>(t', b') \<in> set done1 \<union> set done2. b \<noteq> b')"
    and "mergeable rest fns"
  shows "merge_loop (zip (map marker_token rest) fns)
      (render_page (done1 @ rest) tail, render_page (done2 @ rest) tail)
    = Inr (render_page (done1 @ merged_segs True rest fns) tail,
           render_page (done2 @ merged_segs False rest fns) tail)"
  using assms
proof (induction rest arbitrary: fns done1 done2)
  case Nil
  then show ?case by simp
next
  case (Cons p rest)
  obtain t b where p: "p = (t, b)" by (cases p)
  show ?case
  proof (cases fns)
    case Nil
    then show ?thesis by (simp add: p)
  next
    case (Cons fn fns')
    let ?tok = "LT # b @ [GT]"
    let ?b1 = "fst (paired_bodies b fn)"
    let ?b2 = "snd (paired_bodies b fn)"
    from Cons.prems(3) p have pb: "LT \<notin> set t" "LT \<notin> set b" "GT \<notin> set b"
      and rest_ok: "list_all plain_seg rest"
      by (auto simp: plain_seg_def)
    from Cons.prems(5) p Cons have mg: "mergeable rest fns'"
      and alt: "page_body b \<or>
        (COMMA \<in> set b \<and> LT \<notin> set (tl fn) \<and>
         list_all (\<lambda>(t', b'). b' \<noteq> ?b1 \<and> b' \<noteq> ?b2) (take (length fns') rest))"
      by simp_all
    have facts: "merge_repl ?tok fn = Inr (LT # ?b1 @ [GT], LT # ?b2 @ [GT]) \<and>
      LT \<notin> set ?b1 \<and> GT \<notin> set ?b1 \<and> LT \<notin> set ?b2 \<and> GT \<notin> set ?b2 \<and>
      (?b1 = b \<or> (\<forall>(t', b') \<in> set done1. b' \<noteq> b)) \<and>
      (?b2 = b \<or> (\<forall>(t', b') \<in> set done2. b' \<noteq> b)) \<and>
      (\<forall>(t'', b'') \<in> set (take (length fns') rest). \<not> page_body b'' \<longrightarrow>
          b'' \<noteq> ?b1 \<and> b'' \<noteq> ?b2)"
    proof (cases "page_body b")
      case True
      from paired_bodies_p_tag [OF True, of fn] pb True show ?thesis by auto
    next
      case False
      with alt have c: "COMMA \<in> set b" and f: "LT \<notin> set (tl fn)"
        and nc: "list_all (\<lambda>(t', b'). b' \<noteq> ?b1 \<and> b' \<noteq> ?b2) (take (length fns') rest)"
        by simp_all
      have "(t, b) \<in> set (take (length fns) (p # rest))" by (simp add: Cons p)
      with Cons.prems(4) False have "\<forall>(t', b') \<in> set done1 \<union> set done2. b \<noteq> b'" by blast
      then have "(\<forall>(t', b') \<in> set done1. b' \<noteq> b) \<and> (\<forall>(t', b') \<in> set done2. b' \<noteq> b)" by auto
      moreover from nc have "\<forall>(t'', b'') \<in> set (take (length fns') rest). b'' \<noteq> ?b1 \<and> b'' \<noteq> ?b2"
        by (simp add: list_all_iff)
      ultimately show ?thesis
        using paired_bodies_token [OF False c pb(2,3) f] by auto
    qed
    from facts have r: "merge_repl ?tok fn = Inr (LT # ?b1 @ [GT], LT # ?b2 @ [GT])" by simp
    have s1: "replace_first ?tok (LT # ?b1 @ [GT]) (render_page (done1 @ p # rest) tail)
      = render_page ((done1 @ [(t, ?b1)]) @ rest) tail"
      unfolding p using facts by (intro replace_token_in_page [OF Cons.prems(1) pb(1,3)]) simp
    have s2: "replace_first ?tok (LT # ?b2 @ [GT]) (render_page (done2 @ p # rest) tail)
      = render_page ((done2 @ [(t, ?b2)]) @ rest) tail"
      unfolding p using facts by (intro replace_token_in_page [OF Cons.prems(2) pb(1,3)]) simp
    have d1: "list_all (\<lambda>(t', b'). LT \<notin> set t' \<and> LT \<notin> set b' \<and> GT \<notin> set b') (done1 @ [(t, ?b1)])"
      using Cons.prems(1) pb(1) facts by simp
    have d2: "list_all (\<lambda>(t', b'). LT \<notin> set t' \<and> LT \<notin> set b' \<and> GT \<notin> set b') (done2 @ [(t, ?b2)])"
      using Cons.prems(2) pb(1) facts by simp
    have sub: "set (take (length fns') rest) \<subseteq> set (take (length fns) (p # rest))"
      by (auto simp: Cons)
    have ap: "\<forall>(t'', b'') \<in> set (take (length fns') rest). \<not> page_body b'' \<longrightarrow>
           (\<forall>(t', b') \<in> set (done1 @ [(t, ?b1)]) \<union> set (done2 @ [(t, ?b2)]). b'' \<noteq> b')"
    proof (intro ballI, clarify)
      fix t'' b'' t' b'
      assume m: "(t'', b'') \<in> set (take (length fns') rest)"
        and n: "\<not> page_body b''"
        and d: "(t', b'') \<in> set (done1 @ [(t, ?b1)]) \<union> set (done2 @ [(t, ?b2)])"
      from m sub have "(t'', b'') \<in> set (take (length fns) (p # rest))" by blast
      with Cons.prems(4) n have old: "\<forall>(t', b') \<in> set done1 \<union> set done2. b'' \<noteq> b'" by blast
      from facts m n have new: "b'' \<noteq> ?b1 \<and> b'' \<noteq> ?b2" by blast
      from d old new show False by auto
    qed
    have "merge_loop (zip (map marker_token (p # rest)) fns)
        (render_page (done1 @ p # rest) tail, render_page (done2 @ p # rest) tail)
      = merge_loop (zip (map marker_token rest) fns')
          (render_page ((done1 @ [(t, ?b1)]) @ rest) tail,
           render_page ((done2 @ [(t, ?b2)]) @ rest) tail)"
      using r s1 s2 by (simp add: Cons p marker_token_def)
    also have "\<dots> = Inr (render_page ((done1 @ [(t, ?b1)]) @ merged_segs True rest fns') tail,
           render_page ((done2 @ [(t, ?b2)]) @ merged_segs False rest fns') tail)"
      by (rule Cons.IH [OF d1 d2 rest_ok ap mg])
    finally show ?thesis by (simp add: Cons p)
  qed
qed

lemma merged_segs_drop:
  "drop (length foot_notes) (merged_segs marked segs foot_notes) = drop (length foot_notes) segs"
  by (induction marked segs foot_notes rule: merged_segs.induct) simp_all

lemma merged_segs_texts: "map fst (merged_segs marked segs foot_notes) = map fst segs"
  by (induction marked segs foot_notes rule: merged_segs.induct) simp_all

lemma merged_segs_surplus:
  "merged_segs marked segs foot_notes = merged_segs marked segs (take (length segs) foot_notes)"
  by (induction marked segs foot_notes rule: merged_segs.induct) simp_all

lemma merge_render_page:
  assumes "list_all plain_seg segs" "LT \<notin> set tail" "mergeable segs foot_notes"
  shows "merge_footnotes_per_page (render_page segs tail) foot_notes
    = Inr (render_page (merged_segs True segs foot_notes) tail,
           render_page (merged_segs False segs foot_notes) tail)"
proof -
  have "re_finditer match_marker (render_page segs tail) = map marker_token segs"
    using re_scan_render_page [OF assms(1,2)] by (simp add: re_finditer_def comp_def)
  then show ?thesis
    using merge_loop_pages [of "[]" "[]" segs foot_notes tail] assms(1,3)
    by (simp add: merge_footnotes_per_page_def)
qed

text \<open>
  C3, as stated: with fewer footnotes than body markers every marker should still get a
  replacement, the missing notes being empty. On the page \<open>word<1,(1)>word<2,(2)>word\<close>
  with the single footnote \<open><1,(1)>first note\<close> (where (1) and (2) are the circled
  digits) the second marker gets no replacement: it stands unchanged in both outputs.
\<close>

theorem merge_leaves_markers_without_footnote:
  "merge_footnotes_per_page
     [119, 111, 114, 100, 60, 49, 44, 9312, 62, 119, 111, 114, 100, 60, 50, 44, 9313, 62,
      119, 111, 114, 100]
     [[60, 49, 44, 9312, 62, 102, 105, 114, 115, 116, 32, 110, 111, 116, 101]]
   = Inr ([119, 111, 114, 100, 60, 49, 44, 9312, 59, 49, 44, 9312, 44, 102, 105, 114, 115,
           116, 32, 110, 111, 116, 101, 62, 119, 111, 114, 100, 60, 50, 44, 9313, 62, 119,
           111, 114, 100],
          [119, 111, 114, 100, 60, 102, 105, 114, 115, 116, 32, 110, 111, 116, 101, 62, 119,
           111, 114, 100, 60, 50, 44, 9313, 62, 119, 111, 114, 100])"
  by (simp add: merge_footnotes_per_page_def re_finditer_def match_marker_def match_tag_def
      not_newline_def merge_repl_def replace_first_def Let_def)

text \<open>
  C3, amended: a difference in length alone never makes the merge fail: when every body
  marker that is not a page token has a comma, the merge returns for every list of
  footnotes, and with no footnote at all both outputs are the page itself. The tokens
  and the footnotes are paired from the left up to the shorter of the two sequences: on
  a page in which \<open><\<close> occurs only as the opening bracket of a token, with footnotes
  and tokens that are mergeable, the two outputs are the page with the paired tokens
  replaced, each at its place; the tokens after the last footnote stand unchanged in
  both outputs, the text between the tokens is unchanged, and the footnotes after the
  last token are ignored. No side is filled up with an empty value.
\<close>

theorem merge_length_mismatch:
  "(list_all (\<lambda>marker. search_p_tag marker \<or> COMMA \<in> set (butlast (tl marker)))
      (re_finditer match_marker page)
    \<longrightarrow> (\<exists>r. merge_footnotes_per_page page foot_notes = Inr r)) \<and>
   merge_footnotes_per_page page [] = Inr (page, page) \<and>
   (list_all plain_seg segs \<and> LT \<notin> set tail \<and> mergeable segs foot_notes \<longrightarrow>
      merge_footnotes_per_page (render_page segs tail) foot_notes
        = Inr (render_page (merged_segs True segs foot_notes) tail,
               render_page (merged_segs False segs foot_notes) tail) \<and>
      drop (length foot_notes) (merged_segs marked segs foot_notes)
        = drop (length foot_notes) segs \<and>
      map fst (merged_segs marked segs foot_notes) = map fst segs \<and>
      merged_segs marked segs foot_notes = merged_segs marked segs (take (length segs) foot_notes))"
  using merge_never_fails_on_length [of page foot_notes]
    merge_render_page [of segs tail foot_notes]
    merged_segs_drop [of foot_notes marked segs] merged_segs_texts [of marked segs foot_notes]
    merged_segs_surplus [of marked segs foot_notes]
  by (simp add: merge_footnotes_per_page_def)

text \<open>
  The page \<open>word<1,(1)>word<2,(2)>word\<close> with the single footnote \<open><1,(1)>n\<close>: the first
  token is replaced in both outputs, the second stands as it is.
\<close>

theorem merge_length_mismatch_witness:
  "list_all plain_seg [([119, 111, 114, 100], [49, 44, 9312]), ([119, 111, 114, 100], [50, 44, 9313])] \<and>
   mergeable [([119, 111, 114, 100], [49, 44, 9312]), ([119, 111, 114, 100], [50, 44, 9313])]
     [[60, 49, 44, 9312, 62, 110]] \<and>
   list_all (\<lambda>marker. search_p_tag marker \<or> COMMA \<in> set (butlast (tl marker)))
     (re_finditer match_marker
        [119, 111, 114, 100, 60, 49, 44, 9312, 62, 119, 111, 114, 100, 60, 50, 44, 9313, 62,
         119, 111, 114, 100]) \<and>
   merge_footnotes_per_page
     [119, 111, 114, 100, 60, 49, 44, 9312, 62, 119, 111, 114, 100, 60, 50, 44, 9313, 62,
      119, 111, 114, 100]
     [[60, 49, 44, 9312, 62, 110]]
   = Inr ([119, 111, 114, 100, 60, 49, 44, 9312, 59, 49, 44, 9312, 44, 110, 62,
           119, 111, 114, 100, 60, 50, 44, 9313, 62, 119, 111, 114, 100],
          [119, 111, 114, 100, 60, 110, 62, 119, 111, 114, 100, 60, 50, 44, 9313, 62,
           119, 111, 114, 100])"
proof -
  let ?segs = "[([119, 111, 114, 100], [49, 44, 9312]), ([119, 111, 114, 100], [50, 44, 9313])]
    :: (ustring \<times> ustring) list"
  let ?page = "[119, 111, 114, 100, 60, 49, 44, 9312, 62, 119, 111, 114, 100, 60, 50, 44, 9313, 62,
      119, 111, 114, 100] :: ustring"
  have p: "list_all plain_seg ?segs" by (simp add: plain_seg_def)
  have pb: "paired_bodies [49, 44, 9312] [60, 49, 44, 9312, 62, 110]
      = ([49, 44, 9312, 59, 49, 44, 9312, 44, 110], [110])"
    by (simp add: paired_bodies_def merge_repl_def Let_def)
  have m: "mergeable ?segs [[60, 49, 44, 9312, 62, 110]]"
    by (simp add: pb page_body_def)
  have h: "list_all (\<lambda>marker. search_p_tag marker \<or> COMMA \<in> set (butlast (tl marker)))
      (re_finditer match_marker ?page)"
    by (simp add: re_finditer_def match_marker_def match_tag_def not_newline_def)
  have r: "render_page ?segs [119, 111, 114, 100] = ?page" by simp
  from merge_length_mismatch [of ?page "[[60, 49, 44, 9312, 62, 110]]" ?segs
      "[119, 111, 114, 100]" True] p m h
  have "merge_footnotes_per_page (render_page ?segs [119, 111, 114, 100])
      [[60, 49, 44, 9312, 62, 110]]
    = Inr (render_page (merged_segs True ?segs [[60, 49, 44, 9312, 62, 110]]) [119, 111, 114, 100],
           render_page (merged_segs False ?segs [[60, 49, 44, 9312, 62, 110]]) [119, 111, 114, 100])"
    by simp
  then have "merge_footnotes_per_page ?page [[60, 49, 44, 9312, 62, 110]]
    = Inr ([119, 111, 114, 100, 60, 49, 44, 9312, 59, 49, 44, 9312, 44, 110, 62,
           119, 111, 114, 100, 60, 50, 44, 9313, 62, 119, 111, 114, 100],
          [119, 111, 114, 100, 60, 110, 62, 119, 111, 114, 100, 60, 50, 44, 9313, 62,
           119, 111, 114, 100])"
    unfolding r by (simp add: pb)
  with p m h show ?thesis by simp
qed

section \<open>Properties of the repairs of the body diff classifier\<close>

lemma text_chars_append [simp]: "text_chars (xs @ ys) = text_chars xs + text_chars ys"
  by (simp add: text_chars_def)

lemma text_chars_single [simp]: "text_chars [(op, t, tag)] = mset t"
  by (simp add: text_chars_def entry_text_def)




lemma diff_chars_Cons [simp]: "diff_chars ((op, t) # ys) = mset t + diff_chars ys"
  by (simp add: diff_chars_def)













text \<open>
  \<open>handle_mid_syl\<close> reads the characters that it moves from \<open>left_diff\<close> and cuts them
  from the last entry of \<open>result\<close>. The two are the same text after a diff that is equal
  or only in the target. After a diff that is itself only in the source, which has no
  entry of its own text in \<open>result\<close>, they differ: in the example the repair at the
  circled digit empties the entry \<open>ka\<close> and puts \<open>b \<close> in front of \<open>ga\<close>, and
  \<open>filter_diffs\<close> returns the sequence without \<open>ka\<close>. The engine returns no such sequence.
\<close>

lemma handle_mid_syl_after_source_diff:
  "handle_mid_syl example_result example_diffs (- 1, [97, 98, SPC]) 3 (- 1, [0x2460]) [0xF42]
      ''marker''
     = Inr ([(0, [SHAD], []), (0, [], []), (1, [0x2460], ''marker'')],
            example_diffs[4 := (1, [98, SPC, 0xF42])]) \<and>
   text_chars [(0, [SHAD], []), (0, [], [])]
       + diff_chars (example_diffs[4 := (1, [98, SPC, 0xF42])])
     \<noteq> text_chars example_result + diff_chars example_diffs \<and>
   filter_diffs example_diffs 1
     = Inr [(0, [SHAD], []), (0, [], []), (1, [0x2460], ''marker''), (1, [98, SPC, 0xF42], [])]"
proof -
  have a: "handle_mid_syl example_result example_diffs (- 1, [97, 98, SPC]) 3 (- 1, [0x2460])
      [0xF42] ''marker''
     = Inr ([(0, [SHAD], []), (0, [], []), (1, [0x2460], ''marker'')],
            example_diffs[4 := (1, [98, SPC, 0xF42])])"
    by (simp add: example_result_def example_diffs_def handle_mid_syl_def
        double_mid_syl_marker_def is_punct_def entry_text_def entry_tag_def rm_noise_def
        set_last_text_def last_text_def set_diff_text_def Let_def)
  have c1: "count (text_chars [(0, [SHAD], []), (0, [], [])]
       + diff_chars (example_diffs[4 := (1, [98, SPC, 0xF42])])) 0xF40 = 1"
    by (simp add: example_diffs_def text_chars_def diff_chars_def entry_text_def)
  have c2: "count (text_chars example_result + diff_chars example_diffs) 0xF40 = 2"
    by (simp add: example_result_def example_diffs_def text_chars_def diff_chars_def
        entry_text_def)
  have b: "text_chars [(0, [SHAD], []), (0, [], [])]
       + diff_chars (example_diffs[4 := (1, [98, SPC, 0xF42])])
     \<noteq> text_chars example_result + diff_chars example_diffs"
  proof
    assume "text_chars [(0, [SHAD], []), (0, [], [])]
       + diff_chars (example_diffs[4 := (1, [98, SPC, 0xF42])])
     = text_chars example_result + diff_chars example_diffs"
    then have "count (text_chars [(0, [SHAD], []), (0, [], [])]
       + diff_chars (example_diffs[4 := (1, [98, SPC, 0xF42])])) 0xF40
     = count (text_chars example_result + diff_chars example_diffs) 0xF40"
      by (rule arg_cong)
    with c1 c2 show False by simp
  qed
  have c: "filter_diffs example_diffs 1
     = Inr [(0, [SHAD], []), (0, [], []), (1, [0x2460], ''marker''), (1, [98, SPC, 0xF42], [])]"
    by (simp add: example_diffs_def filter_diffs_def filter_step_def str_int_def
        str_nat.simps nondigit_ahead_def digit_ahead_def choose_action_def is_midsyl_def
        get_marker_def get_abs_marker_def first_run_def is_circle_range_def
        handle_mid_syl_def double_mid_syl_marker_def is_punct_def entry_text_def
        entry_tag_def rm_noise_def set_last_text_def last_text_def set_diff_text_def Let_def
        double_marker_handler_def)
  from a b c show ?thesis by simp
qed

subsection \<open>The repairs within the loop of the classifier\<close>









lemma choose_action_MidSyl:
  "choose_action lt ltext rt rtext dtext d' = MidSyl \<Longrightarrow> is_midsyl ltext rtext"
  by (auto simp: choose_action_def split: if_splits)





section \<open>The guard of the Tibetan numeral translation on runs of digits\<close>

text \<open>
  What \<open>translate_tib_number\<close> does on a run of digits in general: a run of three or more
  digits is rejected by the guard, a run of one or two Tibetan digits is translated digit
  by digit.
\<close>

lemma translate_tib_number_long_run:
  assumes "list_all is_digit s" "3 \<le> length s"
  shows "translate_tib_number s = []"
proof -
  from assms(2) obtain a s1 where "s = a # s1" "2 \<le> length s1" by (cases s) auto
  moreover from this obtain b s2 where "s1 = b # s2" "1 \<le> length s2" by (cases s1) auto
  moreover from this obtain c r where "s2 = c # r" by (cases s2) auto
  ultimately have s: "s = a # b # c # r" by simp
  have "(1::nat) \<in> {1..<Suc (length s)}" using s by simp
  then have one: "1 \<in> set [1..<Suc (length s)]" by (simp only: set_upt)
  have "list_all is_digit (take 1 s) \<and> list_all (\<lambda>c. \<not> is_space c) (take 1 (drop 1 s))
      \<and> (case drop (1 + 1) s of [] \<Rightarrow> False | d # _ \<Rightarrow> is_digit d)"
    using assms(1) s digit_not_space by simp
  with one have "digits_nonspace_digits_at s"
    unfolding digits_nonspace_digits_at_def list_ex_iff by blast
  then have "search_digits_nonspace_digits s" using s by simp
  then show ?thesis by (simp add: translate_tib_number_def)
qed

lemma tib_num_lookup:
  assumes "is_tib_digit c"
  shows "map_of tib_num c = Some [48 + (c - 0xF20)]"
proof -
  from assms have "c = 0xF20 \<or> c = 0xF21 \<or> c = 0xF22 \<or> c = 0xF23 \<or> c = 0xF24 \<or> c = 0xF25
      \<or> c = 0xF26 \<or> c = 0xF27 \<or> c = 0xF28 \<or> c = 0xF29"
    unfolding is_tib_digit_def by arith
  then show ?thesis by (elim disjE) (simp_all add: tib_num_def)
qed

lemma translate_tib_number_short_run:
  assumes "list_all is_tib_digit s" "length s \<le> 2"
  shows "translate_tib_number s = map (\<lambda>c. 48 + (c - 0xF20)) s"
proof -
  have ng: "\<not> search_digits_nonspace_digits s"
  proof (cases s)
    case Nil
    then show ?thesis by simp
  next
    case (Cons a r)
    with assms(2) have "r = [] \<or> (\<exists>b. r = [b])" by (cases r) auto
    with Cons show ?thesis by (auto simp: digits_nonspace_digits_at_def)
  qed
  have "filter is_digit s = s" using assms(1) is_digit_tib by (simp add: list_all_iff)
  moreover have "concat (map (\<lambda>c. if is_tib_digit c
                           then (case map_of tib_num c of None \<Rightarrow> [] | Some v \<Rightarrow> v)
                           else [c]) s) = map (\<lambda>c. 48 + (c - 0xF20)) s"
    using assms(1) by (induction s) (simp_all add: tib_num_lookup)
  ultimately show ?thesis using ng by (simp add: translate_tib_number_def)
qed

text \<open>
  C7, as stated: a contiguous run of Tibetan digits should translate to the concatenation
  of the digit values. On the run of the three glyphs for 1, 2, 3 the guard
  \<open>\d+\S+(\d+)\<close> matches, since a digit is also a character that is not white space:
  \<open>translate_tib_number\<close> returns the empty string and not \<open>123\<close>, and so does
  \<open>get_value\<close>.
\<close>

theorem translate_tib_number_three_digit_run:
  "translate_tib_number [0xF21, 0xF22, 0xF23] = [] \<and>
   translate_tib_number [0xF21, 0xF22, 0xF23] \<noteq> [49, 50, 51] \<and>
   get_value [0xF21, 0xF22, 0xF23] = []"
  by (simp add: get_value_def is_circle_number_def is_circle_range_def
      translate_tib_number_def digits_nonspace_digits_at_def is_digit_def is_space_def
      nd_starts_def)

text \<open>
  C7, amended: for a marker text that is one contiguous run of Tibetan digits,
  \<open>translate_tib_number\<close> returns the concatenation of the decimal values of the glyphs
  when the run has one or two glyphs, and rejects the run (empty result) when it has
  three or more: the guard rejects every text in which a digit is followed, after at
  least one character that is not white space, by another digit.
\<close>

theorem translate_tib_number_digit_runs:
  "list_all is_tib_digit s \<longrightarrow>
     (length s \<le> 2 \<longrightarrow> translate_tib_number s = map (\<lambda>c. 48 + (c - 0xF20)) s) \<and>
     (3 \<le> length s \<longrightarrow> translate_tib_number s = [])"
proof (intro impI conjI)
  assume t: "list_all is_tib_digit s"
  then show "translate_tib_number s = map (\<lambda>c. 48 + (c - 0xF20)) s" if "length s \<le> 2"
    using that by (rule translate_tib_number_short_run)
  from t have "list_all is_digit s" using is_digit_tib by (simp add: list_all_iff)
  then show "translate_tib_number s = []" if "3 \<le> length s"
    using that by (rule translate_tib_number_long_run)
qed

theorem translate_tib_number_digit_runs_witness:
  "list_all is_tib_digit [0xF21, 0xF22] \<and> translate_tib_number [0xF21, 0xF22] = [49, 50] \<and>
   list_all is_tib_digit [0xF24, 0xF20, 0xF29, 0xF25] \<and>
   translate_tib_number [0xF24, 0xF20, 0xF29, 0xF25] = []"
  using translate_tib_number_digit_runs [of "[0xF21, 0xF22]"]
    translate_tib_number_digit_runs [of "[0xF24, 0xF20, 0xF29, 0xF25]"]
  by (simp add: is_tib_digit_def)


end
